theory Spec2Isabelle
  imports Main "HOL-Library.Word"
begin

unbundle bit_operations_syntax

section \<open>Python values used by \<open>scripts/png_tools.py\<close>\<close>

text \<open>
  A Python \<open>bytes\<close> or \<open>bytearray\<close> object is a list of 8-bit words; reading an element
  gives the Python integer \<open>uint b\<close>. Python integers are unbounded and are modelled by
  \<open>int\<close>. Every \<open>raise\<close> of the module, and every exception that an indexing, a
  \<open>bytearray(n)\<close> allocation, \<open>struct\<close> or \<open>zlib\<close> can raise, is a value of \<open>error\<close>.
\<close>

type_synonym byte = "8 word"

datatype error =
    NotPng
  | MissingIHDR
  | StructError
  | UnsupportedMethod
  | InterlacedNotSupported
  | BitDepthNotSupported
  | UnsupportedColorType int
  | ZlibError
  | IdatTooSmall int int
  | UnsupportedFilter int
  | IndexError
  | NegativeCount

text \<open>The dataclass \<open>PngImage\<close>.\<close>

record PngImage =
  width :: int
  height :: int
  rgba :: "byte list"

text \<open>\<open>xs[i]\<close>: a negative index counts from the end, an index out of range raises.\<close>

definition py_get :: "'a list \<Rightarrow> int \<Rightarrow> error + 'a" where
  "py_get xs i =
     (let n = int (length xs); j = (if i < 0 then i + n else i)
      in if 0 \<le> j \<and> j < n then Inr (xs ! nat j) else Inl IndexError)"

text \<open>\<open>xs[i] = v\<close> on a \<open>bytearray\<close>.\<close>

definition py_set :: "'a list \<Rightarrow> int \<Rightarrow> 'a \<Rightarrow> error + 'a list" where
  "py_set xs i v =
     (let n = int (length xs); j = (if i < 0 then i + n else i)
      in if 0 \<le> j \<and> j < n then Inr (xs[nat j := v]) else Inl IndexError)"

text \<open>
  Slice bounds are clipped to the sequence, never raise; \<open>xs[i:j]\<close> is empty when the
  clipped \<open>j\<close> is not above the clipped \<open>i\<close>, and \<open>xs[i:j] = ys\<close> replaces that range by
  \<open>ys\<close> (the length changes when \<open>ys\<close> is not as long as the range).
\<close>

definition py_clip :: "nat \<Rightarrow> int \<Rightarrow> nat" where
  "py_clip n i = (if i < 0 then nat (max (i + int n) 0) else min (nat i) n)"

definition py_slice :: "'a list \<Rightarrow> int \<Rightarrow> int \<Rightarrow> 'a list" where
  "py_slice xs i j =
     (let a = py_clip (length xs) i; b = py_clip (length xs) j
      in take (b - a) (drop a xs))"

definition py_slice_assign :: "'a list \<Rightarrow> int \<Rightarrow> int \<Rightarrow> 'a list \<Rightarrow> 'a list" where
  "py_slice_assign xs i j ys =
     (let a = py_clip (length xs) i; b = max a (py_clip (length xs) j)
      in take a xs @ ys @ drop b xs)"

text \<open>\<open>range(n)\<close> and \<open>range(0, n, step)\<close> for a positive \<open>step\<close>.\<close>

definition py_range :: "int \<Rightarrow> int list" where
  "py_range n = [0..n - 1]"

definition py_range_step :: "int \<Rightarrow> int \<Rightarrow> int list" where
  "py_range_step n step = filter (\<lambda>i. i mod step = 0) [0..n - 1]"

text \<open>\<open>xs.pop()\<close> on a list.\<close>

definition py_pop :: "'a list \<Rightarrow> error + ('a \<times> 'a list)" where
  "py_pop xs = (if xs = [] then Inl IndexError else Inr (last xs, butlast xs))"

text \<open>\<open>bytearray(n)\<close>: \<open>n\<close> zero bytes; a negative count raises \<open>ValueError\<close>.\<close>

definition bytearray :: "int \<Rightarrow> error + byte list" where
  "bytearray n = (if n < 0 then Inl NegativeCount else Inr (replicate (nat n) 0))"

text \<open>
  A \<open>for\<close> loop over a list of indices whose body may raise: the state is threaded
  through the iterations, the first error ends the loop.
\<close>

fun for_loop :: "int list \<Rightarrow> ('s \<Rightarrow> int \<Rightarrow> error + 's) \<Rightarrow> 's \<Rightarrow> error + 's" where
  "for_loop [] body s = Inr s"
| "for_loop (i # is) body s =
     (case body s i of Inl e \<Rightarrow> Inl e | Inr s' \<Rightarrow> for_loop is body s')"

section \<open>Scanline reconstruction\<close>

text \<open>\<open>_paeth\<close>.\<close>

definition paeth :: "int \<Rightarrow> int \<Rightarrow> int \<Rightarrow> int" where
  "paeth a b c =
     (let p = a + b - c; pa = \<bar>p - a\<bar>; pb = \<bar>p - b\<bar>; pc = \<bar>p - c\<bar>
      in if pa \<le> pb \<and> pa \<le> pc then a else if pb \<le> pc then b else c)"

text \<open>
  The three neighbour reads of the inner loop of \<open>_unfilter_scanlines\<close>; each is a read
  of \<open>out\<close> under the source's guard, 0 otherwise.
\<close>

definition guarded_get :: "bool \<Rightarrow> byte list \<Rightarrow> int \<Rightarrow> error + int" where
  "guarded_get g out i =
     (if g then (case py_get out i of Inl e \<Rightarrow> Inl e | Inr b \<Rightarrow> Inr (uint b)) else Inr 0)"

text \<open>
  The body of \<open>for x in range(row_bytes)\<close>. A value stored in the \<open>bytearray\<close> has been
  masked with \<open>0xFF\<close>, so \<open>word_of_int\<close> stores it as it is.
\<close>

definition unfilter_byte ::
  "byte list \<Rightarrow> int \<Rightarrow> int \<Rightarrow> int \<Rightarrow> int \<Rightarrow> int \<Rightarrow> byte list \<Rightarrow> int \<Rightarrow> error + byte list" where
  "unfilter_byte src filt row_bytes bpp dst_off y out x =
     (case guarded_get (x \<ge> bpp) out (dst_off + x - bpp) of Inl e \<Rightarrow> Inl e | Inr left \<Rightarrow>
      case guarded_get (y > 0) out (dst_off - row_bytes + x) of Inl e \<Rightarrow> Inl e | Inr up \<Rightarrow>
      case guarded_get (y > 0 \<and> x \<ge> bpp) out (dst_off - row_bytes + x - bpp) of
        Inl e \<Rightarrow> Inl e | Inr up_left \<Rightarrow>
      case py_get src x of Inl e \<Rightarrow> Inl e | Inr vb \<Rightarrow>
        (let val = uint vb in
         if filt = 1 then py_set out (dst_off + x) (word_of_int ((val + left) AND 255))
         else if filt = 2 then py_set out (dst_off + x) (word_of_int ((val + up) AND 255))
         else if filt = 3 then
           py_set out (dst_off + x) (word_of_int ((val + ((left + up) div 2)) AND 255))
         else if filt = 4 then
           py_set out (dst_off + x) (word_of_int ((val + paeth left up up_left) AND 255))
         else Inl (UnsupportedFilter filt)))"

text \<open>The body of \<open>for y in range(h)\<close>.\<close>

definition unfilter_row ::
  "byte list \<Rightarrow> int \<Rightarrow> int \<Rightarrow> int \<Rightarrow> byte list \<Rightarrow> int \<Rightarrow> error + byte list" where
  "unfilter_row raw row_bytes stride bpp out y =
     (let row_start = y * stride in
      case py_get raw row_start of Inl e \<Rightarrow> Inl e | Inr fb \<Rightarrow>
        (let filt = uint fb;
             src = py_slice raw (row_start + 1) (row_start + 1 + row_bytes);
             dst_off = y * row_bytes
         in if filt = 0 then Inr (py_slice_assign out dst_off (dst_off + row_bytes) src)
            else for_loop (py_range row_bytes)
                   (unfilter_byte src filt row_bytes bpp dst_off y) out))"

text \<open>\<open>_unfilter_scanlines\<close>.\<close>

definition unfilter_scanlines :: "byte list \<Rightarrow> int \<Rightarrow> int \<Rightarrow> int \<Rightarrow> error + byte list" where
  "unfilter_scanlines raw w h bpp =
     (let row_bytes = w * bpp; stride = 1 + row_bytes; expected = h * stride in
      if int (length raw) < expected then Inl (IdatTooSmall (int (length raw)) expected)
      else case bytearray (h * row_bytes) of Inl e \<Rightarrow> Inl e | Inr out \<Rightarrow>
        for_loop (py_range h) (unfilter_row raw row_bytes stride bpp) out)"

text \<open>
  The reconstruction rule in the words of the specification: the Paeth predictor and the
  per-byte formula for the five filter types, on the filtered byte \<open>f\<close> and the
  neighbours \<open>a\<close> (left), \<open>b\<close> (up) and \<open>c\<close> (up-left).
\<close>

definition paeth_predictor :: "int \<Rightarrow> int \<Rightarrow> int \<Rightarrow> int" where
  "paeth_predictor a b c =
     (if \<bar>(a + b - c) - a\<bar> \<le> \<bar>(a + b - c) - b\<bar> \<and> \<bar>(a + b - c) - a\<bar> \<le> \<bar>(a + b - c) - c\<bar> then a
      else if \<bar>(a + b - c) - b\<bar> \<le> \<bar>(a + b - c) - c\<bar> then b
      else c)"

definition recon_formula :: "int \<Rightarrow> int \<Rightarrow> int \<Rightarrow> int \<Rightarrow> int \<Rightarrow> int" where
  "recon_formula filt f a b c =
     (if filt = 0 then f
      else if filt = 1 then (f + a) mod 256
      else if filt = 2 then (f + b) mod 256
      else if filt = 3 then (f + (a + b) div 2) mod 256
      else (f + paeth_predictor a b c) mod 256)"

text \<open>
  Byte \<open>x\<close> of row \<open>y\<close> of the output \<open>out\<close> is what the formula gives for the filter
  byte of the row, the filtered byte at this position and the neighbours read from \<open>out\<close>
  itself; a neighbour outside the image (the first \<open>bpp\<close> columns, row 0) counts as 0.
\<close>

definition reconstructed_at :: "byte list \<Rightarrow> int \<Rightarrow> int \<Rightarrow> byte list \<Rightarrow> int \<Rightarrow> int \<Rightarrow> bool" where
  "reconstructed_at raw row_bytes bpp out y x =
     (uint (out ! nat (y * row_bytes + x)) =
        recon_formula (uint (raw ! nat (y * (1 + row_bytes))))
          (uint (raw ! nat (y * (1 + row_bytes) + 1 + x)))
          (if x \<ge> bpp then uint (out ! nat (y * row_bytes + x - bpp)) else 0)
          (if y > 0 then uint (out ! nat ((y - 1) * row_bytes + x)) else 0)
          (if y > 0 \<and> x \<ge> bpp then uint (out ! nat ((y - 1) * row_bytes + x - bpp)) else 0))"


section \<open>Chunks and \<open>struct\<close>\<close>

definition PNG_SIGNATURE :: "byte list" where
  "PNG_SIGNATURE = [0x89, 0x50, 0x4E, 0x47, 0x0D, 0x0A, 0x1A, 0x0A]"

definition IHDR :: "byte list" where "IHDR = [0x49, 0x48, 0x44, 0x52]"
definition IDAT :: "byte list" where "IDAT = [0x49, 0x44, 0x41, 0x54]"
definition IEND :: "byte list" where "IEND = [0x49, 0x45, 0x4E, 0x44]"

text \<open>
  \<open>struct.unpack(">I", b)[0]\<close> on four bytes and \<open>struct.pack(">I", v)\<close>, which raises
  \<open>struct.error\<close> unless \<open>0 \<le> v < 2 ^ 32\<close>.
\<close>

definition unpack_be32 :: "byte list \<Rightarrow> int" where
  "unpack_be32 bs = foldl (\<lambda>acc b. acc * 256 + uint b) 0 bs"

definition pack_be32 :: "int \<Rightarrow> error + byte list" where
  "pack_be32 v =
     (if 0 \<le> v \<and> v < 2 ^ 32
      then Inr [word_of_int (v div 2 ^ 24), word_of_int (v div 2 ^ 16),
                word_of_int (v div 2 ^ 8), word_of_int v]
      else Inl StructError)"

text \<open>
  \<open>_read_chunks\<close>: the chunks the generator yields from offset \<open>i\<close> on. The checksum
  is skipped, not read. The generator stops after the \<open>IEND\<close> chunk or when fewer than 8
  bytes are left.
\<close>

function read_chunks_from :: "byte list \<Rightarrow> int \<Rightarrow> (byte list \<times> byte list) list" where
  "read_chunks_from png i =
     (if i < int (length png) then
        (if i + 8 > int (length png) then []
         else (py_slice png (i + 4) (i + 8),
               py_slice png (i + 8) (i + 8 + unpack_be32 (py_slice png i (i + 4))))
              # (if py_slice png (i + 4) (i + 8) = IEND then []
                 else read_chunks_from png (i + 8 + unpack_be32 (py_slice png i (i + 4)) + 4)))
      else [])"
  by pat_completeness auto

lemma unpack_be32_nonneg: "0 \<le> unpack_be32 bs"
proof -
  have "0 \<le> acc \<Longrightarrow> 0 \<le> foldl (\<lambda>acc b. acc * 256 + uint b) acc bs" for acc :: int
    by (induction bs arbitrary: acc) auto
  then show ?thesis by (simp add: unpack_be32_def)
qed

termination read_chunks_from
proof (relation "measure (\<lambda>(png, i). nat (int (length png) - i))")
  show "wf (measure (\<lambda>(png, i). nat (int (length png) - i)))" by simp
next
  fix png :: "byte list" and i :: int
  assume "i < int (length png)"
  then show "((png, i + 8 + unpack_be32 (py_slice png i (i + 4)) + 4), png, i)
        \<in> measure (\<lambda>(png, i). nat (int (length png) - i))"
    using unpack_be32_nonneg[of "py_slice png i (i + 4)"] by simp
qed

declare read_chunks_from.simps [simp del]

definition read_chunks :: "byte list \<Rightarrow> error + (byte list \<times> byte list) list" where
  "read_chunks png =
     (if take (length PNG_SIGNATURE) png \<noteq> PNG_SIGNATURE then Inl NotPng
      else Inr (read_chunks_from png (int (length PNG_SIGNATURE))))"

section \<open>Decoding\<close>

text \<open>
  The loop of \<open>read_png\<close> over the chunks: the last \<open>IHDR\<close> seen is kept, the \<open>IDAT\<close>
  payloads are collected in order, \<open>IEND\<close> ends the loop.
\<close>

fun collect_chunks ::
  "(byte list \<times> byte list) list \<Rightarrow> byte list option \<Rightarrow> byte list list \<Rightarrow>
   byte list option \<times> byte list list" where
  "collect_chunks [] ihdr idat_parts = (ihdr, idat_parts)"
| "collect_chunks ((ctype, data) # cs) ihdr idat_parts =
     (if ctype = IHDR then collect_chunks cs (Some data) idat_parts
      else if ctype = IDAT then collect_chunks cs ihdr (idat_parts @ [data])
      else if ctype = IEND then (ihdr, idat_parts)
      else collect_chunks cs ihdr idat_parts)"

text \<open>\<open>struct.unpack(">IIBBBBB", ihdr)\<close>: the buffer must be 13 bytes long.\<close>

definition unpack_ihdr :: "byte list \<Rightarrow> error + (int \<times> int \<times> int \<times> int \<times> int \<times> int \<times> int)" where
  "unpack_ihdr d =
     (if length d \<noteq> 13 then Inl StructError
      else Inr (unpack_be32 (take 4 d), unpack_be32 (take 4 (drop 4 d)),
                uint (d ! 8), uint (d ! 9), uint (d ! 10), uint (d ! 11), uint (d ! 12)))"

text \<open>\<open>dst[di] = src[si]\<close>.\<close>

definition copy_byte :: "byte list \<Rightarrow> int \<Rightarrow> byte list \<Rightarrow> int \<Rightarrow> error + byte list" where
  "copy_byte dst di src si =
     (case py_get src si of Inl e \<Rightarrow> Inl e | Inr v \<Rightarrow> py_set dst di v)"

text \<open>The expansion of RGB to RGBA in \<open>read_png\<close>.\<close>

definition expand_pixel :: "byte list \<Rightarrow> byte list \<Rightarrow> int \<Rightarrow> error + byte list" where
  "expand_pixel pixels rgba_out i =
     (case copy_byte rgba_out (i * 4 + 0) pixels (i * 3 + 0) of Inl e \<Rightarrow> Inl e | Inr o1 \<Rightarrow>
      case copy_byte o1 (i * 4 + 1) pixels (i * 3 + 1) of Inl e \<Rightarrow> Inl e | Inr o2 \<Rightarrow>
      case copy_byte o2 (i * 4 + 2) pixels (i * 3 + 2) of Inl e \<Rightarrow> Inl e | Inr o3 \<Rightarrow>
        py_set o3 (i * 4 + 3) 255)"

definition expand_rgb :: "byte list \<Rightarrow> int \<Rightarrow> int \<Rightarrow> error + byte list" where
  "expand_rgb pixels w h =
     (case bytearray (w * h * 4) of Inl e \<Rightarrow> Inl e | Inr rgba_out \<Rightarrow>
        for_loop (py_range (w * h)) (expand_pixel pixels) rgba_out)"

text \<open>
  \<open>read_png\<close>, on the content of the file. \<open>zlib.decompress\<close> is a parameter: it
  returns the inflated bytes, or \<open>None\<close> where it raises \<open>zlib.error\<close>.
\<close>

definition read_png :: "(byte list \<Rightarrow> byte list option) \<Rightarrow> byte list \<Rightarrow> error + PngImage" where
  "read_png zlib_decompress png =
     (case read_chunks png of Inl e \<Rightarrow> Inl e | Inr chunks \<Rightarrow>
      case collect_chunks chunks None [] of
        (None, idat_parts) \<Rightarrow> Inl MissingIHDR
      | (Some ihdr, idat_parts) \<Rightarrow>
      case unpack_ihdr ihdr of Inl e \<Rightarrow> Inl e
      | Inr (w, h, bit_depth, color_type, comp_method, filt, interlace) \<Rightarrow>
        if comp_method \<noteq> 0 \<or> filt \<noteq> 0 then Inl UnsupportedMethod
        else if interlace \<noteq> 0 then Inl InterlacedNotSupported
        else if bit_depth \<noteq> 8 then Inl BitDepthNotSupported
        else if color_type \<noteq> 2 \<and> color_type \<noteq> 6 then Inl (UnsupportedColorType color_type)
        else
          (let bpp = (if color_type = 2 then 3 else 4) in
           case zlib_decompress (concat idat_parts) of None \<Rightarrow> Inl ZlibError | Some raw \<Rightarrow>
           case unfilter_scanlines raw w h bpp of Inl e \<Rightarrow> Inl e | Inr pixels \<Rightarrow>
             if bpp = 4 then Inr \<lparr>width = w, height = h, rgba = pixels\<rparr>
             else case expand_rgb pixels w h of Inl e \<Rightarrow> Inl e
                  | Inr rgba_out \<Rightarrow> Inr \<lparr>width = w, height = h, rgba = rgba_out\<rparr>))"

section \<open>Encoding\<close>

text \<open>\<open>_filter_none_rgba\<close>: the body of its loop, and the function.\<close>

definition filter_none_row :: "byte list \<Rightarrow> int \<Rightarrow> byte list \<Rightarrow> int \<Rightarrow> error + byte list" where
  "filter_none_row rgba_in row_bytes out y =
     (case py_set out (y * (1 + row_bytes)) 0 of Inl e \<Rightarrow> Inl e | Inr out1 \<Rightarrow>
        (let start = y * row_bytes
         in Inr (py_slice_assign out1 (y * (1 + row_bytes) + 1) (y * (1 + row_bytes) + 1 + row_bytes)
                   (py_slice rgba_in start (start + row_bytes)))))"

definition filter_none_rgba :: "byte list \<Rightarrow> int \<Rightarrow> int \<Rightarrow> error + byte list" where
  "filter_none_rgba rgba_in w h =
     (let row_bytes = w * 4 in
      case bytearray (h * (1 + row_bytes)) of Inl e \<Rightarrow> Inl e | Inr out \<Rightarrow>
        for_loop (py_range h) (filter_none_row rgba_in row_bytes) out)"

text \<open>
  The local function \<open>chunk\<close> of \<open>write_png_rgba\<close>; \<open>zlib.crc32\<close> is a parameter.
\<close>

definition chunk :: "(byte list \<Rightarrow> int) \<Rightarrow> byte list \<Rightarrow> byte list \<Rightarrow> error + byte list" where
  "chunk crc32 ctype data =
     (let crc = crc32 (ctype @ data) AND 0xFFFFFFFF in
      case pack_be32 (int (length data)) of Inl e \<Rightarrow> Inl e | Inr len_bytes \<Rightarrow>
      case pack_be32 crc of Inl e \<Rightarrow> Inl e | Inr crc_bytes \<Rightarrow>
        Inr (len_bytes @ ctype @ data @ crc_bytes))"

text \<open>\<open>struct.pack(">IIBBBBB", w, h, 8, 6, 0, 0, 0)\<close>.\<close>

definition pack_ihdr :: "int \<Rightarrow> int \<Rightarrow> error + byte list" where
  "pack_ihdr w h =
     (case pack_be32 w of Inl e \<Rightarrow> Inl e | Inr wb \<Rightarrow>
      case pack_be32 h of Inl e \<Rightarrow> Inl e | Inr hb \<Rightarrow> Inr (wb @ hb @ [8, 6, 0, 0, 0]))"

text \<open>
  \<open>write_png_rgba\<close>: the bytes written to the file. \<open>zlib.compress\<close> (at level 6) is a
  parameter.
\<close>

definition write_png_rgba ::
  "(byte list \<Rightarrow> byte list) \<Rightarrow> (byte list \<Rightarrow> int) \<Rightarrow> PngImage \<Rightarrow> error + byte list" where
  "write_png_rgba zlib_compress crc32 img =
     (case pack_ihdr (width img) (height img) of Inl e \<Rightarrow> Inl e | Inr ihdr \<Rightarrow>
      case filter_none_rgba (rgba img) (width img) (height img) of Inl e \<Rightarrow> Inl e
      | Inr raw_scanlines \<Rightarrow>
        (let compressed = zlib_compress raw_scanlines in
         case chunk crc32 IHDR ihdr of Inl e \<Rightarrow> Inl e | Inr c1 \<Rightarrow>
         case chunk crc32 IDAT compressed of Inl e \<Rightarrow> Inl e | Inr c2 \<Rightarrow>
         case chunk crc32 IEND [] of Inl e \<Rightarrow> Inl e | Inr c3 \<Rightarrow>
           Inr (PNG_SIGNATURE @ c1 @ c2 @ c3)))"

section \<open>Background removal\<close>

type_synonym color = "int \<times> int \<times> int"

text \<open>\<open>_color_dist_sq\<close>.\<close>

definition color_dist_sq :: "color \<Rightarrow> color \<Rightarrow> int" where
  "color_dist_sq a b =
     (fst a - fst b) ^ 2 + (fst (snd a) - fst (snd b)) ^ 2 + (snd (snd a) - snd (snd b)) ^ 2"

text \<open>The local function \<open>get_rgb\<close> of \<open>_sample_border_colors\<close>.\<close>

definition get_rgb :: "byte list \<Rightarrow> int \<Rightarrow> int \<Rightarrow> int \<Rightarrow> error + color" where
  "get_rgb buf w x y =
     (let i = (y * w + x) * 4 in
      case py_get buf i of Inl e \<Rightarrow> Inl e | Inr r \<Rightarrow>
      case py_get buf (i + 1) of Inl e \<Rightarrow> Inl e | Inr g \<Rightarrow>
      case py_get buf (i + 2) of Inl e \<Rightarrow> Inl e | Inr b \<Rightarrow> Inr (uint r, uint g, uint b))"

text \<open>\<open>_sample_border_colors\<close>: the two loop bodies, and the function.\<close>

definition sample_x :: "byte list \<Rightarrow> int \<Rightarrow> int \<Rightarrow> color list \<Rightarrow> int \<Rightarrow> error + color list" where
  "sample_x buf w h colors x =
     (case get_rgb buf w x 0 of Inl e \<Rightarrow> Inl e | Inr c1 \<Rightarrow>
      case get_rgb buf w x (h - 1) of Inl e \<Rightarrow> Inl e | Inr c2 \<Rightarrow> Inr (colors @ [c1, c2]))"

definition sample_y :: "byte list \<Rightarrow> int \<Rightarrow> int \<Rightarrow> color list \<Rightarrow> int \<Rightarrow> error + color list" where
  "sample_y buf w h colors y =
     (case get_rgb buf w 0 y of Inl e \<Rightarrow> Inl e | Inr c1 \<Rightarrow>
      case get_rgb buf w (w - 1) y of Inl e \<Rightarrow> Inl e | Inr c2 \<Rightarrow> Inr (colors @ [c1, c2]))"

definition sample_border_colors :: "PngImage \<Rightarrow> int \<Rightarrow> error + color list" where
  "sample_border_colors img step =
     (let w = width img; h = height img in
      case for_loop (py_range_step w step) (sample_x (rgba img) w h) [] of Inl e \<Rightarrow> Inl e
      | Inr colors \<Rightarrow> for_loop (py_range_step h step) (sample_y (rgba img) w h) colors)"

text \<open>
  \<open>collections.Counter(xs)\<close> as the list of its items: a dictionary keeps its keys in
  the order of their first insertion, and counting an element again changes its count in
  place. \<open>most_common(n)\<close> is \<open>heapq.nlargest(n, items, key = count)\<close>, which is
  \<open>sorted(items, key = count, reverse = True)[:n]\<close>: a stable sort by descending count
  (\<open>sort_key\<close> is stable), and the empty list for \<open>n \<le> 0\<close>.
\<close>

fun counter_add :: "('a \<times> int) list \<Rightarrow> 'a \<Rightarrow> ('a \<times> int) list" where
  "counter_add [] k = [(k, 1)]"
| "counter_add ((k', n) # kvs) k =
     (if k' = k then (k', n + 1) # kvs else (k', n) # counter_add kvs k)"

definition Counter :: "'a list \<Rightarrow> ('a \<times> int) list" where
  "Counter xs = foldl counter_add [] xs"

definition most_common :: "('a \<times> int) list \<Rightarrow> int \<Rightarrow> ('a \<times> int) list" where
  "most_common items n =
     (if n \<le> 0 then [] else take (nat n) (sort_key (\<lambda>(k, c). - c) items))"

text \<open>The local function \<open>is_bg\<close> of \<open>background_to_alpha_floodfill\<close>.\<close>

definition is_bg :: "color list \<Rightarrow> int \<Rightarrow> color \<Rightarrow> bool" where
  "is_bg seeds tol_sq rgb = list_ex (\<lambda>s. color_dist_sq rgb s \<le> tol_sq) seeds"

text \<open>
  The variables the flood fill mutates: the copy of the pixel buffer, the visited bitmap
  and the two stacks.
\<close>

record fill_state =
  buf :: "byte list"
  visited :: "byte list"
  qx :: "int list"
  qy :: "int list"

text \<open>The local function \<open>push\<close>.\<close>

definition push :: "int \<Rightarrow> fill_state \<Rightarrow> int \<Rightarrow> int \<Rightarrow> error + fill_state" where
  "push w st x y =
     (let idx = y * w + x in
      case py_get (visited st) idx of Inl e \<Rightarrow> Inl e | Inr v \<Rightarrow>
        if v \<noteq> 0 then Inr st
        else case py_set (visited st) idx 1 of Inl e \<Rightarrow> Inl e
             | Inr vis \<Rightarrow> Inr (st\<lparr>visited := vis, qx := qx st @ [x], qy := qy st @ [y]\<rparr>))"

text \<open>A \<open>push\<close> under an \<open>if\<close>.\<close>

definition push_if :: "bool \<Rightarrow> int \<Rightarrow> fill_state \<Rightarrow> int \<Rightarrow> int \<Rightarrow> error + fill_state" where
  "push_if c w st x y = (if c then push w st x y else Inr st)"

text \<open>The bodies of the two seeding loops.\<close>

definition seed_x :: "int \<Rightarrow> int \<Rightarrow> fill_state \<Rightarrow> int \<Rightarrow> error + fill_state" where
  "seed_x w h st x =
     (case push w st x 0 of Inl e \<Rightarrow> Inl e | Inr st1 \<Rightarrow> push w st1 x (h - 1))"

definition seed_y :: "int \<Rightarrow> int \<Rightarrow> fill_state \<Rightarrow> int \<Rightarrow> error + fill_state" where
  "seed_y w h st y =
     (case push w st 0 y of Inl e \<Rightarrow> Inl e | Inr st1 \<Rightarrow> push w st1 (w - 1) y)"

text \<open>The body of \<open>while qx\<close>.\<close>

definition fill_step :: "int \<Rightarrow> int \<Rightarrow> color list \<Rightarrow> int \<Rightarrow> fill_state \<Rightarrow> error + fill_state" where
  "fill_step w h seeds tol_sq st =
     (case py_pop (qx st) of Inl e \<Rightarrow> Inl e | Inr (x, qx') \<Rightarrow>
      case py_pop (qy st) of Inl e \<Rightarrow> Inl e | Inr (y, qy') \<Rightarrow>
        (let st0 = st\<lparr>qx := qx', qy := qy'\<rparr> in
         case get_rgb (buf st0) w x y of Inl e \<Rightarrow> Inl e | Inr rgb \<Rightarrow>
           if \<not> is_bg seeds tol_sq rgb then Inr st0
           else case py_set (buf st0) ((y * w + x) * 4 + 3) 0 of Inl e \<Rightarrow> Inl e | Inr buf' \<Rightarrow>
             (case push_if (x > 0) w (st0\<lparr>buf := buf'\<rparr>) (x - 1) y of Inl e \<Rightarrow> Inl e | Inr st1 \<Rightarrow>
              case push_if (x + 1 < w) w st1 (x + 1) y of Inl e \<Rightarrow> Inl e | Inr st2 \<Rightarrow>
              case push_if (y > 0) w st2 x (y - 1) of Inl e \<Rightarrow> Inl e | Inr st3 \<Rightarrow>
                push_if (y + 1 < h) w st3 x (y + 1))))"

text \<open>
  What decreases in every iteration: twice the number of unvisited entries of the bitmap
  plus the height of the stack.
\<close>

definition fill_measure :: "fill_state \<Rightarrow> nat" where
  "fill_measure st = 2 * length (filter (\<lambda>b. b = 0) (visited st)) + length (qx st)"

lemma zeros_update_less:
  fixes xs :: "byte list"
  assumes "j < length xs" "xs ! j = 0" "v \<noteq> 0"
  shows "Suc (length (filter (\<lambda>b. b = 0) (xs[j := v]))) = length (filter (\<lambda>b. b = 0) xs)"
proof -
  have a: "xs[j := v] = take j xs @ v # drop (Suc j) xs"
    using assms(1) by (rule upd_conv_take_nth_drop)
  have "xs = take j xs @ xs ! j # drop (Suc j) xs"
    using assms(1) by (rule id_take_nth_drop)
  then have "length (filter (\<lambda>b. b = 0) xs) =
      length (filter (\<lambda>b. b = 0) (take j xs @ xs ! j # drop (Suc j) xs))" by simp
  with assms(2,3) show ?thesis unfolding a by simp
qed

lemma push_measure: "push w st x y = Inr st' \<Longrightarrow> fill_measure st' \<le> fill_measure st"
proof -
  assume p: "push w st x y = Inr st'"
  define idx where "idx = y * w + x"
  define j where "j = (if idx < 0 then idx + int (length (visited st)) else idx)"
  show ?thesis
  proof (cases "0 \<le> j \<and> j < int (length (visited st))")
    case False
    then have "py_get (visited st) idx = Inl IndexError"
      by (simp add: py_get_def Let_def j_def)
    with p show ?thesis by (simp add: push_def idx_def Let_def)
  next
    case True
    then have g: "py_get (visited st) idx = Inr (visited st ! nat j)"
      and s: "py_set (visited st) idx 1 = Inr ((visited st)[nat j := 1])"
      by (simp_all add: py_get_def py_set_def Let_def j_def)
    show ?thesis
    proof (cases "visited st ! nat j = 0")
      case False
      with p g show ?thesis by (simp add: push_def idx_def[symmetric] Let_def)
    next
      case z: True
      with p g s have st': "st' = st\<lparr>visited := (visited st)[nat j := 1], qx := qx st @ [x], qy := qy st @ [y]\<rparr>"
        by (simp add: push_def idx_def[symmetric] Let_def)
      have "Suc (length (filter (\<lambda>b. b = 0) ((visited st)[nat j := 1]))) =
            length (filter (\<lambda>b. b = 0) (visited st))"
        by (rule zeros_update_less) (use True z in \<open>auto\<close>)
      then show ?thesis unfolding st' fill_measure_def by simp
    qed
  qed
qed

lemma push_if_measure: "push_if c w st x y = Inr st' \<Longrightarrow> fill_measure st' \<le> fill_measure st"
  by (cases c) (auto simp: push_if_def dest: push_measure)

lemma fill_step_measure:
  assumes "fill_step w h seeds tol_sq st = Inr st'"
  shows "fill_measure st' < fill_measure st"
proof -
  from assms obtain x qx' y qy' where px: "py_pop (qx st) = Inr (x, qx')" and py: "py_pop (qy st) = Inr (y, qy')"
    unfolding fill_step_def by (auto split: sum.splits)
  define st0 where "st0 = st\<lparr>qx := qx', qy := qy'\<rparr>"
  from px have "qx st \<noteq> []" "qx' = butlast (qx st)" by (auto simp: py_pop_def split: if_splits)
  then have m0: "fill_measure st0 < fill_measure st"
    by (simp add: fill_measure_def st0_def)
  have step: "fill_step w h seeds tol_sq st =
      (case get_rgb (buf st0) w x y of Inl e \<Rightarrow> Inl e | Inr rgb \<Rightarrow>
         if \<not> is_bg seeds tol_sq rgb then Inr st0
         else case py_set (buf st0) ((y * w + x) * 4 + 3) 0 of Inl e \<Rightarrow> Inl e | Inr buf' \<Rightarrow>
           (case push_if (x > 0) w (st0\<lparr>buf := buf'\<rparr>) (x - 1) y of Inl e \<Rightarrow> Inl e | Inr st1 \<Rightarrow>
            case push_if (x + 1 < w) w st1 (x + 1) y of Inl e \<Rightarrow> Inl e | Inr st2 \<Rightarrow>
            case push_if (y > 0) w st2 x (y - 1) of Inl e \<Rightarrow> Inl e | Inr st3 \<Rightarrow>
              push_if (y + 1 < h) w st3 x (y + 1)))"
    unfolding fill_step_def px py st0_def Let_def by simp
  from assms obtain rgb where rgb: "get_rgb (buf st0) w x y = Inr rgb"
    unfolding step by (auto split: sum.splits)
  show ?thesis
  proof (cases "is_bg seeds tol_sq rgb")
    case False
    with assms rgb have "st' = st0"
      unfolding step by simp
    with m0 show ?thesis by simp
  next
    case True
    with assms rgb obtain buf' st1 st2 st3 where
      "push_if (x > 0) w (st0\<lparr>buf := buf'\<rparr>) (x - 1) y = Inr st1"
      "push_if (x + 1 < w) w st1 (x + 1) y = Inr st2"
      "push_if (y > 0) w st2 x (y - 1) = Inr st3"
      "push_if (y + 1 < h) w st3 x (y + 1) = Inr st'"
      unfolding step by (auto split: sum.splits)
    then have "fill_measure st' \<le> fill_measure (st0\<lparr>buf := buf'\<rparr>)"
      using push_if_measure by (meson order_trans)
    also have "\<dots> = fill_measure st0" by (simp add: fill_measure_def)
    finally show ?thesis using m0 by simp
  qed
qed

text \<open>The loop \<open>while qx\<close>.\<close>

function fill_loop :: "int \<Rightarrow> int \<Rightarrow> color list \<Rightarrow> int \<Rightarrow> fill_state \<Rightarrow> error + fill_state" where
  "fill_loop w h seeds tol_sq st =
     (if qx st = [] then Inr st
      else case fill_step w h seeds tol_sq st of Inl e \<Rightarrow> Inl e
           | Inr st' \<Rightarrow> fill_loop w h seeds tol_sq st')"
  by pat_completeness auto

termination fill_loop
proof (relation "measure (\<lambda>(w, h, seeds, tol_sq, st). fill_measure st)")
  show "wf (measure (\<lambda>(w, h, seeds, tol_sq, st). fill_measure st))" by simp
next
  fix w h :: int and seeds :: "color list" and tol_sq :: int and st st' :: fill_state
  assume "fill_step w h seeds tol_sq st = Inr st'"
  then show "((w, h, seeds, tol_sq, st'), w, h, seeds, tol_sq, st)
      \<in> measure (\<lambda>(w, h, seeds, tol_sq, st). fill_measure st)"
    by (simp add: fill_step_measure)
qed

declare fill_loop.simps [simp del]

text \<open>
  What \<open>background_to_alpha_floodfill\<close> returns: the object it was given (\<open>return img\<close>),
  or a \<open>PngImage\<close> it has built.
\<close>

datatype returned = Same_Object | New_Object PngImage

definition returned_image :: "PngImage \<Rightarrow> returned \<Rightarrow> PngImage" where
  "returned_image img r = (case r of Same_Object \<Rightarrow> img | New_Object img' \<Rightarrow> img')"

text \<open>\<open>background_to_alpha_floodfill\<close>.\<close>

definition background_to_alpha_floodfill :: "PngImage \<Rightarrow> int \<Rightarrow> int \<Rightarrow> error + returned" where
  "background_to_alpha_floodfill img tolerance max_seed_colors =
     (let w = width img; h = height img in
      case sample_border_colors img 16 of Inl e \<Rightarrow> Inl e | Inr border_colors \<Rightarrow>
        (let common = most_common (Counter border_colors) max_seed_colors;
             seeds = map fst common
         in if seeds = [] then Inr Same_Object
            else
              (let tol_sq = tolerance * tolerance in
               case bytearray (w * h) of Inl e \<Rightarrow> Inl e | Inr vis \<Rightarrow>
               case for_loop (py_range w) (seed_x w h)
                      \<lparr>buf = rgba img, visited = vis, qx = [], qy = []\<rparr> of Inl e \<Rightarrow> Inl e
               | Inr st1 \<Rightarrow>
               case for_loop (py_range h) (seed_y w h) st1 of Inl e \<Rightarrow> Inl e | Inr st2 \<Rightarrow>
               case fill_loop w h seeds tol_sq st2 of Inl e \<Rightarrow> Inl e
               | Inr st3 \<Rightarrow> Inr (New_Object \<lparr>width = w, height = h, rgba = buf st3\<rparr>))))"

section \<open>Notions of the specification\<close>

text \<open>
  The colour of pixel \<open>(x, y)\<close> of an image, and the colours the border scan collects
  in its order: top and bottom edge alternating at every \<open>step\<close>-th column, then left
  and right edge alternating at every \<open>step\<close>-th row.
\<close>

definition pixel_rgb :: "PngImage \<Rightarrow> int \<Rightarrow> int \<Rightarrow> color" where
  "pixel_rgb img x y =
     (uint (rgba img ! nat ((y * width img + x) * 4)),
      uint (rgba img ! nat ((y * width img + x) * 4 + 1)),
      uint (rgba img ! nat ((y * width img + x) * 4 + 2)))"

definition border_scan :: "PngImage \<Rightarrow> int \<Rightarrow> color list" where
  "border_scan img step =
     concat (map (\<lambda>x. [pixel_rgb img x 0, pixel_rgb img x (height img - 1)])
               (py_range_step (width img) step)) @
     concat (map (\<lambda>y. [pixel_rgb img 0 y, pixel_rgb img (width img - 1) y])
               (py_range_step (height img) step))"

text \<open>
  The ranking of the specification: \<open>a\<close> comes before \<open>b\<close> when it is more frequent, or
  as frequent and first seen earlier in the scan.
\<close>

definition first_pos :: "'a list \<Rightarrow> 'a \<Rightarrow> nat" where
  "first_pos xs c = length (takeWhile (\<lambda>x. x \<noteq> c) xs)"

definition ranks_before :: "'a list \<Rightarrow> 'a \<Rightarrow> 'a \<Rightarrow> bool" where
  "ranks_before xs a b \<longleftrightarrow>
     count_list xs a > count_list xs b \<or>
     (count_list xs a = count_list xs b \<and> first_pos xs a < first_pos xs b)"

text \<open>An image whose buffer has the length its dimensions ask for.\<close>

definition well_formed :: "PngImage \<Rightarrow> bool" where
  "well_formed img \<longleftrightarrow>
     0 \<le> width img \<and> 0 \<le> height img \<and>
     int (length (rgba img)) = width img * height img * 4"

definition in_image :: "int \<Rightarrow> int \<Rightarrow> int \<Rightarrow> int \<Rightarrow> bool" where
  "in_image w h x y \<longleftrightarrow> 0 \<le> x \<and> x < w \<and> 0 \<le> y \<and> y < h"

text \<open>The distinct elements of a list, each at its first occurrence.\<close>

definition firsts :: "'a list \<Rightarrow> 'a list" where
  "firsts xs = rev (remdups (rev xs))"

text \<open>
  The border-connected background region of the specification, for a predicate \<open>P\<close> on
  pixels: the pixels that satisfy \<open>P\<close> and are joined to a pixel on one of the four
  edges by a path of pixels that satisfy \<open>P\<close>, each next to the one before it (up, down,
  left or right).
\<close>

definition on_edge :: "int \<Rightarrow> int \<Rightarrow> int \<Rightarrow> int \<Rightarrow> bool" where
  "on_edge w h x y \<longleftrightarrow> x = 0 \<or> x = w - 1 \<or> y = 0 \<or> y = h - 1"

definition adjacent4 :: "int \<Rightarrow> int \<Rightarrow> int \<Rightarrow> int \<Rightarrow> bool" where
  "adjacent4 x y x' y' \<longleftrightarrow>
     (x' = x \<and> (y' = y - 1 \<or> y' = y + 1)) \<or> (y' = y \<and> (x' = x - 1 \<or> x' = x + 1))"

inductive region :: "int \<Rightarrow> int \<Rightarrow> (int \<Rightarrow> int \<Rightarrow> bool) \<Rightarrow> int \<Rightarrow> int \<Rightarrow> bool"
  for w h :: int and P :: "int \<Rightarrow> int \<Rightarrow> bool" where
  edge: "in_image w h x y \<Longrightarrow> on_edge w h x y \<Longrightarrow> P x y \<Longrightarrow> region w h P x y"
| step: "region w h P x y \<Longrightarrow> adjacent4 x y x' y' \<Longrightarrow> in_image w h x' y' \<Longrightarrow> P x' y'
         \<Longrightarrow> region w h P x' y'"

section \<open>The state of the flood fill, and its invariant\<close>

text \<open>
  Reading the state of the flood fill: the pixels marked in the bitmap, the stack as a
  list of pixels, and the pixels that have been taken from the stack and found to be
  background.
\<close>

definition vis :: "int \<Rightarrow> fill_state \<Rightarrow> int \<Rightarrow> int \<Rightarrow> bool" where
  "vis w st x y \<longleftrightarrow> visited st ! nat (y * w + x) \<noteq> 0"

definition stack :: "fill_state \<Rightarrow> (int \<times> int) list" where
  "stack st = zip (qx st) (qy st)"

definition cleared :: "int \<Rightarrow> (int \<Rightarrow> int \<Rightarrow> bool) \<Rightarrow> fill_state \<Rightarrow> int \<Rightarrow> int \<Rightarrow> bool" where
  "cleared w P st x y \<longleftrightarrow> vis w st x y \<and> (x, y) \<notin> set (stack st) \<and> P x y"

definition candidate :: "int \<Rightarrow> int \<Rightarrow> (int \<Rightarrow> int \<Rightarrow> bool) \<Rightarrow> int \<Rightarrow> int \<Rightarrow> bool" where
  "candidate w h P x y \<longleftrightarrow>
     on_edge w h x y \<or> (\<exists>x' y'. region w h P x' y' \<and> adjacent4 x' y' x y)"

text \<open>
  The invariant of the fill, for an original buffer \<open>rgba0\<close> and a predicate \<open>P\<close> on
  pixels. The pixels of \<open>E\<close> are those whose neighbours are still being pushed.
\<close>

definition fill_inv ::
  "int \<Rightarrow> int \<Rightarrow> (int \<Rightarrow> int \<Rightarrow> bool) \<Rightarrow> byte list \<Rightarrow> (int \<times> int) set \<Rightarrow> fill_state \<Rightarrow> bool" where
  "fill_inv w h P rgba0 E st \<longleftrightarrow>
     length (visited st) = nat (w * h) \<and>
     length (qx st) = length (qy st) \<and>
     length (buf st) = length rgba0 \<and>
     distinct (stack st) \<and>
     (\<forall>x y. (x, y) \<in> set (stack st) \<longrightarrow> in_image w h x y \<and> vis w st x y) \<and>
     (\<forall>x y. in_image w h x y \<and> vis w st x y \<longrightarrow> candidate w h P x y) \<and>
     (\<forall>x y. in_image w h x y \<longrightarrow>
        buf st ! nat ((y * w + x) * 4) = rgba0 ! nat ((y * w + x) * 4) \<and>
        buf st ! nat ((y * w + x) * 4 + 1) = rgba0 ! nat ((y * w + x) * 4 + 1) \<and>
        buf st ! nat ((y * w + x) * 4 + 2) = rgba0 ! nat ((y * w + x) * 4 + 2) \<and>
        buf st ! nat ((y * w + x) * 4 + 3) =
          (if cleared w P st x y then 0 else rgba0 ! nat ((y * w + x) * 4 + 3))) \<and>
     (\<forall>x y x' y'. in_image w h x y \<and> cleared w P st x y \<and> (x, y) \<notin> E \<and>
        adjacent4 x y x' y' \<and> in_image w h x' y' \<longrightarrow> vis w st x' y')"

text \<open>
  The background predicate of one call of \<open>background_to_alpha_floodfill\<close>, on the pixels
  of the image it is given: \<open>is_bg\<close> with the seeds selected from the border scan.
\<close>

definition background_pixel :: "PngImage \<Rightarrow> int \<Rightarrow> int \<Rightarrow> int \<Rightarrow> int \<Rightarrow> bool" where
  "background_pixel img tolerance max_seed_colors x y =
     is_bg (map fst (most_common (Counter (border_scan img 16)) max_seed_colors))
       (tolerance * tolerance) (pixel_rgb img x y)"

text \<open>
  A 5 by 5 image: a border of one colour, a ring of another colour inside it, and the
  border colour again at the centre; and the same image with the alpha of the border
  cleared.
\<close>

definition ring5 :: PngImage where
  "ring5 = \<lparr>width = 5, height = 5, rgba =
     [7,7,7,255, 7,7,7,255, 7,7,7,255, 7,7,7,255, 7,7,7,255,
      7,7,7,255, 200,0,0,255, 200,0,0,255, 200,0,0,255, 7,7,7,255,
      7,7,7,255, 200,0,0,255, 7,7,7,255, 200,0,0,255, 7,7,7,255,
      7,7,7,255, 200,0,0,255, 200,0,0,255, 200,0,0,255, 7,7,7,255,
      7,7,7,255, 7,7,7,255, 7,7,7,255, 7,7,7,255, 7,7,7,255]\<rparr>"

definition ring5_cleared :: PngImage where
  "ring5_cleared = \<lparr>width = 5, height = 5, rgba =
     [7,7,7,0, 7,7,7,0, 7,7,7,0, 7,7,7,0, 7,7,7,0,
      7,7,7,0, 200,0,0,255, 200,0,0,255, 200,0,0,255, 7,7,7,0,
      7,7,7,0, 200,0,0,255, 7,7,7,255, 200,0,0,255, 7,7,7,0,
      7,7,7,0, 200,0,0,255, 200,0,0,255, 200,0,0,255, 7,7,7,0,
      7,7,7,0, 7,7,7,0, 7,7,7,0, 7,7,7,0, 7,7,7,0]\<rparr>"

text \<open>A 3 by 1 image with two pixels of one colour and one of another.\<close>

definition strip3 :: PngImage where
  "strip3 = \<lparr>width = 3, height = 1, rgba = [9,9,9,255, 1,2,3,255, 1,2,3,0]\<rparr>"

text \<open>
  The bytes of a PNG file of one red pixel stored as RGB, for a decompressor that returns
  the \<open>IDAT\<close> payload as it is; the checksums are not read.
\<close>

definition png_red_pixel :: "byte list" where
  "png_red_pixel = PNG_SIGNATURE
     @ [0, 0, 0, 13] @ IHDR @ [0, 0, 0, 1,  0, 0, 0, 1,  8, 2, 0, 0, 0] @ [0, 0, 0, 0]
     @ [0, 0, 0, 4] @ IDAT @ [0, 255, 0, 0] @ [0, 0, 0, 0]
     @ [0, 0, 0, 0] @ IEND @ [] @ [0, 0, 0, 0]"

text \<open>
  An image whose header \<open>write_png_rgba\<close> can pack: well formed, with dimensions
  that fit the 32-bit fields of \<open>IHDR\<close>.
\<close>

definition header_encodable :: "PngImage \<Rightarrow> bool" where
  "header_encodable img \<longleftrightarrow> well_formed img \<and> width img < 2 ^ 32 \<and> height img < 2 ^ 32"

text \<open>The image of one opaque red pixel.\<close>

definition red_pixel :: PngImage where
  "red_pixel = \<lparr>width = 1, height = 1, rgba = [255, 0, 0, 255]\<rparr>"

text \<open>
  The bytes of a PNG file whose header declares width 0 and height 1 (8-bit RGBA), with
  one \<open>IDAT\<close> chunk.
\<close>

definition png_zero_width :: "byte list" where
  "png_zero_width = PNG_SIGNATURE
     @ [0, 0, 0, 13] @ IHDR @ [0, 0, 0, 0,  0, 0, 0, 1,  8, 6, 0, 0, 0] @ [0, 0, 0, 0]
     @ [0, 0, 0, 1] @ IDAT @ [5] @ [0, 0, 0, 0]
     @ [0, 0, 0, 0] @ IEND @ [] @ [0, 0, 0, 0]"

text \<open>
  An image of one row of \<open>2 ^ 30\<close> transparent black pixels, and the bytes of a PNG
  file of it (8-bit RGBA) for a decompressor that returns the \<open>IDAT\<close> payload as it
  is. The scanline, one filter byte 0 and \<open>2 ^ 32\<close> data bytes, is split over two
  \<open>IDAT\<close> chunks of \<open>2 ^ 31\<close> and \<open>2 ^ 31 + 1\<close> bytes, so that the length of each
  fits its 32-bit field.
\<close>

definition wide_row :: PngImage where
  "wide_row = \<lparr>width = 2 ^ 30, height = 1, rgba = replicate (2 ^ 32) 0\<rparr>"

definition png_wide_row :: "byte list" where
  "png_wide_row = PNG_SIGNATURE
     @ [0, 0, 0, 13] @ IHDR @ [64, 0, 0, 0,  0, 0, 0, 1,  8, 6, 0, 0, 0] @ [0, 0, 0, 0]
     @ [128, 0, 0, 0] @ IDAT @ replicate (2 ^ 31) 0 @ [0, 0, 0, 0]
     @ [128, 0, 0, 1] @ IDAT @ replicate (2 ^ 31 + 1) 0 @ [0, 0, 0, 0]
     @ [0, 0, 0, 0] @ IEND @ [] @ [0, 0, 0, 0]"

section \<open>Properties of the Python primitives\<close>

lemma py_get_in_range: "0 \<le> i \<Longrightarrow> i < int (length xs) \<Longrightarrow> py_get xs i = Inr (xs ! nat i)"
  by (simp add: py_get_def)

lemma py_set_in_range: "0 \<le> i \<Longrightarrow> i < int (length xs) \<Longrightarrow> py_set xs i v = Inr (xs[nat i := v])"
  by (simp add: py_set_def)

lemma py_clip_in_range: "0 \<le> i \<Longrightarrow> i \<le> int n \<Longrightarrow> py_clip n i = nat i"
  by (simp add: py_clip_def)

lemma py_slice_in_range:
  "0 \<le> i \<Longrightarrow> i \<le> j \<Longrightarrow> j \<le> int (length xs) \<Longrightarrow>
   py_slice xs i j = take (nat (j - i)) (drop (nat i) xs)"
  by (simp add: py_slice_def py_clip_in_range nat_diff_distrib Let_def)

lemma py_slice_assign_in_range:
  "0 \<le> i \<Longrightarrow> i \<le> j \<Longrightarrow> j \<le> int (length xs) \<Longrightarrow>
   py_slice_assign xs i j ys = take (nat i) xs @ ys @ drop (nat j) xs"
  by (simp add: py_slice_assign_def py_clip_in_range max_def Let_def)

lemma for_loop_upto:
  assumes "\<And>k s. a \<le> k \<Longrightarrow> k \<le> b \<Longrightarrow> I k s \<Longrightarrow> \<exists>s'. body s k = Inr s' \<and> I (k + 1) s'"
  shows "a \<le> b + 1 \<Longrightarrow> I a s \<Longrightarrow> \<exists>s'. for_loop [a..b] body s = Inr s' \<and> I (b + 1) s'"
  using assms
proof (induction "nat (b + 1 - a)" arbitrary: a s)
  case 0
  then have "a = b + 1" by simp
  with 0 show ?case by simp
next
  case (Suc n)
  then have ab: "a \<le> b" by simp
  from Suc.prems(3)[OF order_refl ab Suc.prems(2)]
  obtain s1 where s1: "body s a = Inr s1" "I (a + 1) s1" by blast
  have "\<exists>s'. for_loop [a + 1..b] body s1 = Inr s' \<and> I (b + 1) s'"
  proof (rule Suc.hyps(1))
    show "n = nat (b + 1 - (a + 1))" using Suc.hyps(2) by simp
    show "a + 1 \<le> b + 1" using ab by simp
    show "I (a + 1) s1" by (rule s1)
    show "\<And>k s. a + 1 \<le> k \<Longrightarrow> k \<le> b \<Longrightarrow> I k s \<Longrightarrow> \<exists>s'. body s k = Inr s' \<and> I (k + 1) s'"
      using Suc.prems(3) by simp
  qed
  then show ?case using ab s1 by (simp add: upto_rec1)
qed

lemma for_loop_range:
  assumes "0 \<le> n" "I 0 s"
    and "\<And>k s. 0 \<le> k \<Longrightarrow> k < n \<Longrightarrow> I k s \<Longrightarrow> \<exists>s'. body s k = Inr s' \<and> I (k + 1) s'"
  shows "\<exists>s'. for_loop (py_range n) body s = Inr s' \<and> I n s'"
  using for_loop_upto[of 0 "n - 1" I body s] assms by (simp add: py_range_def)

lemma for_loop_cong_on:
  "(\<And>i s. i \<in> set xs \<Longrightarrow> f s i = g s i) \<Longrightarrow> for_loop xs f s = for_loop xs g s"
  by (induction xs arbitrary: s) (auto split: sum.splits)

section \<open>Scanline reconstruction computes the specified formula\<close>

text \<open>
  The loop invariant of \<open>_unfilter_scanlines\<close>: the buffer keeps its length, and every
  byte before position \<open>(y, x)\<close> in row-major order has its final, reconstructed value.
\<close>

lemma paeth_eq_predictor: "paeth a b c = paeth_predictor a b c"
  by (simp add: paeth_def paeth_predictor_def Let_def)

lemma and_255_mod: "(k::int) AND 255 = k mod 256"
proof -
  have "(255::int) = mask 8" by (simp add: mask_eq_exp_minus_1)
  then have "k AND 255 = take_bit 8 k" by (simp only: take_bit_eq_mask)
  then show ?thesis by (simp add: take_bit_eq_mod)
qed

lemma uint_byte_of_masked: "uint (word_of_int (k AND 255) :: byte) = k mod 256"
  by (simp add: and_255_mod uint_word_of_int)

lemma row_idx_lt:
  fixes x' rb y' y :: int
  assumes "0 \<le> x'" "x' < rb" "y' < y"
  shows "y' * rb + x' < y * rb"
proof -
  have "y' + 1 \<le> y" using assms by simp
  then have "(y' + 1) * rb \<le> y * rb" by (intro mult_right_mono) (use assms in \<open>auto\<close>)
  then show ?thesis using assms by (simp add: algebra_simps)
qed

lemma row_idx_nonneg:
  fixes x rb y :: int
  shows "0 \<le> x \<Longrightarrow> 0 \<le> rb \<Longrightarrow> 0 \<le> y \<Longrightarrow> 0 \<le> y * rb + x"
  by simp

lemma row_idx_bound:
  fixes x rb y h :: int
  assumes "0 \<le> x" "x < rb" "y < h"
  shows "y * rb + x < h * rb"
  using row_idx_lt[OF assms] .

definition unf_inv :: "byte list \<Rightarrow> int \<Rightarrow> int \<Rightarrow> int \<Rightarrow> int \<Rightarrow> int \<Rightarrow> byte list \<Rightarrow> bool" where
  "unf_inv raw rb bpp h y x out \<longleftrightarrow>
     length out = nat (h * rb) \<and>
     (\<forall>y' x'. 0 \<le> y' \<and> 0 \<le> x' \<and> x' < rb \<and> (y' < y \<or> (y' = y \<and> x' < x))
        \<longrightarrow> reconstructed_at raw rb bpp out y' x')"

lemma reconstructed_at_frame:
  assumes "\<And>i. i \<le> nat (y * rb + x) \<Longrightarrow> out' ! i = out ! i"
    and "0 \<le> y" "0 \<le> x" "0 \<le> rb" "0 < bpp"
  shows "reconstructed_at raw rb bpp out' y x = reconstructed_at raw rb bpp out y x"
proof -
  have 0: "out' ! nat (y * rb + x) = out ! nat (y * rb + x)" using assms(1) by simp
  have 1: "out' ! nat (y * rb + x - bpp) = out ! nat (y * rb + x - bpp)"
    by (intro assms(1)) (use assms in \<open>simp add: nat_le_eq_zle\<close>)
  have 2: "0 < y \<Longrightarrow> out' ! nat ((y - 1) * rb + x) = out ! nat ((y - 1) * rb + x)"
    by (intro assms(1)) (use assms in \<open>simp add: nat_le_eq_zle algebra_simps\<close>)
  have 3: "0 < y \<Longrightarrow> out' ! nat ((y - 1) * rb + x - bpp) = out ! nat ((y - 1) * rb + x - bpp)"
    by (intro assms(1)) (use assms in \<open>simp add: nat_le_eq_zle algebra_simps\<close>)
  show ?thesis unfolding reconstructed_at_def using 0 1 2 3 by simp
qed

lemma guarded_get_ok:
  "(g \<Longrightarrow> 0 \<le> i \<and> i < int (length out)) \<Longrightarrow>
   guarded_get g out i = Inr (if g then uint (out ! nat i) else 0)"
  by (simp add: guarded_get_def py_get_in_range)

lemma unfilter_byte_step:
  assumes inv: "unf_inv raw rb bpp h y x out"
    and y: "0 \<le> y" "y < h" and x: "0 \<le> x" "x < rb" and bpp: "0 < bpp"
    and src: "length src = nat rb" "\<And>k. 0 \<le> k \<Longrightarrow> k < rb \<Longrightarrow> src ! nat k = raw ! nat (y * (1 + rb) + 1 + k)"
    and filt: "filt = uint (raw ! nat (y * (1 + rb)))" "1 \<le> filt" "filt \<le> 4"
  shows "\<exists>out'. unfilter_byte src filt rb bpp (y * rb) y out x = Inr out' \<and>
           unf_inv raw rb bpp h y (x + 1) out'"
proof -
  define d where "d = y * rb"
  have len: "length out = nat (h * rb)" using inv by (simp add: unf_inv_def)
  have rb: "0 \<le> rb" using x by simp
  have d0: "0 \<le> d" using y rb by (simp add: d_def)
  have pl: "d + x < int (length out)"
    using row_idx_bound[OF x y(2)] d0 x len by (simp add: d_def)
  have y1: "0 < y \<longrightarrow> rb \<le> d"
  proof
    assume "0 < y"
    then have "1 * rb \<le> y * rb" using rb by (intro mult_right_mono) auto
    then show "rb \<le> d" by (simp add: d_def)
  qed
  have e: "(y - 1) * rb = d - rb" by (simp add: algebra_simps d_def)
  define left where "left = (if x \<ge> bpp then uint (out ! nat (d + x - bpp)) else 0)"
  define up where "up = (if y > 0 then uint (out ! nat (d - rb + x)) else 0)"
  define ul where "ul = (if y > 0 \<and> x \<ge> bpp then uint (out ! nat (d - rb + x - bpp)) else 0)"
  have g1: "guarded_get (x \<ge> bpp) out (d + x - bpp) = Inr left"
    unfolding left_def by (rule guarded_get_ok) (use d0 pl bpp in \<open>auto\<close>)
  have g2: "guarded_get (y > 0) out (d - rb + x) = Inr up"
    unfolding up_def by (rule guarded_get_ok) (use y1 pl x rb in \<open>auto\<close>)
  have g3: "guarded_get (y > 0 \<and> x \<ge> bpp) out (d - rb + x - bpp) = Inr ul"
    unfolding ul_def by (rule guarded_get_ok) (use y1 pl x rb bpp in \<open>auto\<close>)
  have g4: "py_get src x = Inr (src ! nat x)"
    by (rule py_get_in_range) (use x src(1) in \<open>auto\<close>)
  define v where "v = recon_formula filt (uint (src ! nat x)) left up ul"
  define out' where "out' = out[nat (d + x) := (word_of_int v :: byte)]"
  have vmod: "uint (word_of_int v :: byte) = v"
    using filt(2,3) unfolding v_def recon_formula_def by (auto simp: uint_word_of_int)
  have run: "unfilter_byte src filt rb bpp d y out x = Inr out'"
    unfolding unfilter_byte_def g1 g2 g3 g4 out'_def v_def recon_formula_def
    using filt(2,3) d0 x pl
    by (auto simp: Let_def py_set_in_range and_255_mod paeth_eq_predictor)
  have same: "\<And>i. i < nat (d + x) \<Longrightarrow> out' ! i = out ! i"
    unfolding out'_def by simp
  have new: "out' ! nat (d + x) = word_of_int v"
    unfolding out'_def using pl d0 x by simp
  have inv': "unf_inv raw rb bpp h y (x + 1) out'"
    unfolding unf_inv_def
  proof (intro conjI allI impI)
    show "length out' = nat (h * rb)" using len by (simp add: out'_def)
  next
    fix y' x'
    assume a: "0 \<le> y' \<and> 0 \<le> x' \<and> x' < rb \<and> (y' < y \<or> y' = y \<and> x' < x + 1)"
    show "reconstructed_at raw rb bpp out' y' x'"
    proof (cases "y' = y \<and> x' = x")
      case False
      with a have before: "y' < y \<or> (y' = y \<and> x' < x)" by auto
      have lt: "y' * rb + x' < d + x"
      proof (cases "y' < y")
        case True
        then show ?thesis using row_idx_lt[of x' rb y' y] a x by (simp add: d_def)
      next
        case False
        with before show ?thesis by (simp add: d_def)
      qed
      have "0 \<le> y' * rb + x'" using a rb by simp
      with lt have "nat (y' * rb + x') < nat (d + x)" by simp
      then have "reconstructed_at raw rb bpp out' y' x' = reconstructed_at raw rb bpp out y' x'"
        by (intro reconstructed_at_frame same) (use a rb bpp in \<open>auto\<close>)
      moreover have "reconstructed_at raw rb bpp out y' x'"
        using inv a before unfolding unf_inv_def by blast
      ultimately show ?thesis by simp
    next
      case True
      have l: "x \<ge> bpp \<Longrightarrow> out' ! nat (d + x - bpp) = out ! nat (d + x - bpp)"
        by (rule same) (use bpp d0 in \<open>auto\<close>)
      have u: "0 < y \<Longrightarrow> out' ! nat (d - rb + x) = out ! nat (d - rb + x)"
        by (rule same) (use y1 x rb in \<open>auto\<close>)
      have c: "0 < y \<Longrightarrow> x \<ge> bpp \<Longrightarrow> out' ! nat (d - rb + x - bpp) = out ! nat (d - rb + x - bpp)"
        by (rule same) (use y1 x rb bpp in \<open>auto\<close>)
      have r: "reconstructed_at raw rb bpp out' y x =
         (uint (out' ! nat (d + x)) =
            recon_formula (uint (raw ! nat (y * (1 + rb))))
              (uint (raw ! nat (y * (1 + rb) + 1 + x)))
              (if x \<ge> bpp then uint (out' ! nat (d + x - bpp)) else 0)
              (if y > 0 then uint (out' ! nat (d - rb + x)) else 0)
              (if y > 0 \<and> x \<ge> bpp then uint (out' ! nat (d - rb + x - bpp)) else 0))"
        unfolding reconstructed_at_def e d_def ..
      have "reconstructed_at raw rb bpp out' y x"
        using new vmod l u c src(2)[OF x] filt(1)
        unfolding r v_def left_def up_def ul_def
        by simp
      then show ?thesis using True by simp
    qed
  qed
  from run inv' show ?thesis unfolding d_def by blast
qed

lemma unf_inv_next_row:
  "unf_inv raw rb bpp h y rb out \<Longrightarrow> unf_inv raw rb bpp h (y + 1) 0 out"
  unfolding unf_inv_def by (auto simp: less_le)

lemma row_window:
  fixes y rb h :: int
  assumes "0 \<le> y" "y < h" "0 \<le> rb" "h * (1 + rb) \<le> n"
  shows "0 \<le> y * (1 + rb)" "y * (1 + rb) + 1 + rb \<le> n"
proof -
  show "0 \<le> y * (1 + rb)" using assms by simp
  have "(y + 1) * (1 + rb) \<le> h * (1 + rb)" by (rule mult_right_mono) (use assms in \<open>auto\<close>)
  then show "y * (1 + rb) + 1 + rb \<le> n" using assms(4) by (simp add: algebra_simps)
qed

lemma unfilter_row_step:
  assumes inv: "unf_inv raw rb bpp h y 0 out"
    and y: "0 \<le> y" "y < h" and rb: "0 \<le> rb" and bpp: "0 < bpp"
    and len: "h * (1 + rb) \<le> int (length raw)"
    and filt: "uint (raw ! nat (y * (1 + rb))) \<le> 4"
  shows "\<exists>out'. unfilter_row raw rb (1 + rb) bpp out y = Inr out' \<and>
           unf_inv raw rb bpp h (y + 1) 0 out'"
proof -
  define rs where "rs = y * (1 + rb)"
  define d where "d = y * rb"
  define src where "src = py_slice raw (rs + 1) (rs + 1 + rb)"
  define filt where "filt = uint (raw ! nat rs)"
  have rs0: "0 \<le> rs" and rs1: "rs + 1 + rb \<le> int (length raw)"
    using row_window[OF y rb len] by (simp_all add: rs_def)
  have get: "py_get raw rs = Inr (raw ! nat rs)"
    by (rule py_get_in_range) (use rs0 rs1 rb in \<open>auto\<close>)
  have src_eq: "src = take (nat rb) (drop (nat (rs + 1)) raw)"
    unfolding src_def using rs0 rs1 rb by (simp add: py_slice_in_range)
  have src_len: "length src = nat rb"
    unfolding src_eq using rs0 rs1 rb by simp
  have src_nth: "\<And>k. 0 \<le> k \<Longrightarrow> k < rb \<Longrightarrow> src ! nat k = raw ! nat (rs + 1 + k)"
    unfolding src_eq using rs0 rs1 by (simp add: nat_add_distrib)
  define N where "N = nat (h * rb)"
  have outlen: "length out = N" using inv by (simp add: unf_inv_def N_def)
  have d0: "0 \<le> d" using y rb by (simp add: d_def)
  have "(y + 1) * rb \<le> h * rb" by (rule mult_right_mono) (use y rb in \<open>auto\<close>)
  then have d1: "d + rb \<le> int N"
    using d0 rb by (simp add: d_def algebra_simps N_def)
  have unfold: "unfilter_row raw rb (1 + rb) bpp out y =
      (if filt = 0 then Inr (py_slice_assign out d (d + rb) src)
       else for_loop (py_range rb) (unfilter_byte src filt rb bpp d y) out)"
    unfolding unfilter_row_def Let_def rs_def[symmetric] get src_def filt_def d_def by simp
  show ?thesis
  proof (cases "filt = 0")
    case True
    define out' where "out' = take (nat d) out @ src @ drop (nat (d + rb)) out"
    have run: "unfilter_row raw rb (1 + rb) bpp out y = Inr out'"
      unfolding unfold out'_def using True d0 d1 rb outlen by (simp add: py_slice_assign_in_range)
    have dn: "nat d + nat rb \<le> N" "nat (d + rb) = nat d + nat rb"
      using d0 d1 rb by (simp_all add: nat_add_distrib)
    have len': "length out' = N"
      unfolding out'_def using outlen src_len dn by simp
    have same: "\<And>i. i < nat d \<Longrightarrow> out' ! i = out ! i"
      unfolding out'_def using dn outlen by (simp add: nth_append)
    have new: "\<And>k. 0 \<le> k \<Longrightarrow> k < rb \<Longrightarrow> out' ! nat (d + k) = src ! nat k"
      unfolding out'_def using dn d0 src_len outlen
      by (simp add: nth_append nat_add_distrib)
    have "unf_inv raw rb bpp h (y + 1) 0 out'"
      unfolding unf_inv_def
    proof (intro conjI allI impI)
      show "length out' = nat (h * rb)" using len' by (simp add: N_def)
    next
      fix y' x'
      assume a: "0 \<le> y' \<and> 0 \<le> x' \<and> x' < rb \<and> (y' < y + 1 \<or> y' = y + 1 \<and> x' < 0)"
      show "reconstructed_at raw rb bpp out' y' x'"
      proof (cases "y' = y")
        case False
        with a have lt: "y' < y" by auto
        have "y' * rb + x' < d" using row_idx_lt[of x' rb y' y] a lt by (simp add: d_def)
        moreover have "0 \<le> y' * rb + x'" using a rb by simp
        ultimately have "nat (y' * rb + x') < nat d" by simp
        then have "reconstructed_at raw rb bpp out' y' x' = reconstructed_at raw rb bpp out y' x'"
          by (intro reconstructed_at_frame same) (use a rb bpp in \<open>auto\<close>)
        moreover have "reconstructed_at raw rb bpp out y' x'"
          using inv a lt unfolding unf_inv_def by blast
        ultimately show ?thesis by simp
      next
        case True
        have "out' ! nat (d + x') = raw ! nat (rs + 1 + x')"
          using new[of x'] src_nth[of x'] a by simp
        then have "reconstructed_at raw rb bpp out' y x'"
          using \<open>filt = 0\<close> unfolding reconstructed_at_def recon_formula_def filt_def rs_def d_def
          by simp
        then show ?thesis using True by simp
      qed
    qed
    with run show ?thesis by blast
  next
    case False
    have f14: "1 \<le> filt" "filt \<le> 4"
      using False filt uint_nonnegative[of "raw ! nat (y * (1 + rb))"]
      unfolding filt_def rs_def by linarith+
    have "\<exists>s'. for_loop (py_range rb) (unfilter_byte src filt rb bpp d y) out = Inr s' \<and>
             unf_inv raw rb bpp h y rb s'"
    proof (rule for_loop_range[where I = "\<lambda>x s. unf_inv raw rb bpp h y x s"])
      show "0 \<le> rb" by (rule rb)
      show "unf_inv raw rb bpp h y 0 out" by (rule inv)
    next
      fix k s
      assume k: "0 \<le> k" "k < rb" and i: "unf_inv raw rb bpp h y k s"
      show "\<exists>s'. unfilter_byte src filt rb bpp d y s k = Inr s' \<and> unf_inv raw rb bpp h y (k + 1) s'"
        unfolding d_def
        by (rule unfilter_byte_step[OF i y k bpp src_len _ _ f14])
           (use src_nth in \<open>simp_all add: rs_def filt_def\<close>)
    qed
    then show ?thesis
      unfolding unfold using False unf_inv_next_row by auto
  qed
qed

lemma unfilter_scanlines_reconstructs:
  assumes w0: "0 \<le> w" and h0: "0 \<le> h" and bpp: "0 < bpp"
    and len: "h * (1 + w * bpp) \<le> int (length raw)"
    and filt: "\<And>y. 0 \<le> y \<Longrightarrow> y < h \<Longrightarrow> uint (raw ! nat (y * (1 + w * bpp))) \<le> 4"
  shows "\<exists>out. unfilter_scanlines raw w h bpp = Inr out \<and>
           unf_inv raw (w * bpp) bpp h h 0 out"
proof -
  define rb where "rb = w * bpp"
  have rb: "0 \<le> rb" using w0 bpp by (simp add: rb_def)
  have hrb: "0 \<le> h * rb" using h0 rb by simp
  have init: "unf_inv raw rb bpp h 0 0 (replicate (nat (h * rb)) 0)"
    unfolding unf_inv_def by auto
  have "\<exists>s'. for_loop (py_range h) (unfilter_row raw rb (1 + rb) bpp)
           (replicate (nat (h * rb)) 0) = Inr s' \<and> unf_inv raw rb bpp h h 0 s'"
  proof (rule for_loop_range[where I = "\<lambda>y s. unf_inv raw rb bpp h y 0 s"])
    show "0 \<le> h" by (rule h0)
    show "unf_inv raw rb bpp h 0 0 (replicate (nat (h * rb)) 0)" by (rule init)
  next
    fix k s
    assume k: "0 \<le> k" "k < h" and i: "unf_inv raw rb bpp h k 0 s"
    show "\<exists>s'. unfilter_row raw rb (1 + rb) bpp s k = Inr s' \<and> unf_inv raw rb bpp h (k + 1) 0 s'"
      by (rule unfilter_row_step[OF i k rb bpp]) (use len filt[OF k] in \<open>simp_all add: rb_def\<close>)
  qed
  then show ?thesis
    unfolding unfilter_scanlines_def Let_def rb_def[symmetric] bytearray_def
    using len hrb by (auto simp: rb_def)
qed

section \<open>Where the errors of the reconstruction come from\<close>

lemma for_loop_Inl:
  "for_loop xs body s = Inl e \<Longrightarrow> \<exists>s' i. i \<in> set xs \<and> body s' i = Inl e"
proof (induction xs arbitrary: s)
  case Nil
  then show ?case by simp
next
  case (Cons i xs)
  show ?case
  proof (cases "body s i")
    case (Inl e')
    with Cons.prems have "body s i = Inl e" by simp
    then show ?thesis by auto
  next
    case (Inr s1)
    with Cons.prems have "for_loop xs body s1 = Inl e" by simp
    from Cons.IH[OF this] show ?thesis by auto
  qed
qed

lemma py_get_Inl: "py_get xs i = Inl e \<Longrightarrow> e = IndexError"
  by (simp add: py_get_def Let_def split: if_splits)

lemma py_set_Inl: "py_set xs i v = Inl e \<Longrightarrow> e = IndexError"
  by (simp add: py_set_def Let_def split: if_splits)

lemma guarded_get_Inl: "guarded_get g xs i = Inl e \<Longrightarrow> e = IndexError"
  by (auto simp: guarded_get_def split: if_splits sum.splits dest: py_get_Inl)

lemma unfilter_byte_Inl:
  "unfilter_byte src filt rb bpp d y out x = Inl e \<Longrightarrow> e = IndexError \<or> e = UnsupportedFilter filt"
  unfolding unfilter_byte_def Let_def
  by (auto split: sum.splits if_splits dest: guarded_get_Inl py_get_Inl py_set_Inl)

lemma unfilter_row_Inl:
  "unfilter_row raw rb stride bpp out y = Inl e \<Longrightarrow> e = IndexError \<or> (\<exists>f. e = UnsupportedFilter f)"
  unfolding unfilter_row_def Let_def
  by (auto split: sum.splits if_splits dest!: py_get_Inl for_loop_Inl unfilter_byte_Inl)

lemma unfilter_scanlines_Inl:
  "unfilter_scanlines raw w h bpp = Inl e \<Longrightarrow>
   e = IdatTooSmall (int (length raw)) (h * (1 + w * bpp)) \<and>
     int (length raw) < h * (1 + w * bpp)
   \<or> e = NegativeCount \<or> e = IndexError \<or> (\<exists>f. e = UnsupportedFilter f)"
  unfolding unfilter_scanlines_def Let_def bytearray_def
  by (auto split: sum.splits if_splits dest!: for_loop_Inl unfilter_row_Inl)

lemma py_get_take:
  "0 \<le> i \<Longrightarrow> i < int n \<Longrightarrow> n \<le> length xs \<Longrightarrow> py_get (take n xs) i = py_get xs i"
  by (simp add: py_get_def Let_def)

lemma py_slice_take:
  "0 \<le> i \<Longrightarrow> i \<le> j \<Longrightarrow> j \<le> int n \<Longrightarrow> n \<le> length xs \<Longrightarrow>
   py_slice (take n xs) i j = py_slice xs i j"
proof -
  assume a: "0 \<le> i" "i \<le> j" "j \<le> int n" "n \<le> length xs"
  have "py_slice (take n xs) i j = take (nat (j - i)) (drop (nat i) (take n xs))"
    by (rule py_slice_in_range) (use a in \<open>auto\<close>)
  also have "\<dots> = take (nat (j - i)) (drop (nat i) xs)"
  proof -
    have "nat j \<le> n" using a by simp
    then have "nat j - nat i \<le> n - nat i" by (rule diff_le_mono)
    then have "min (nat (j - i)) (n - nat i) = nat (j - i)"
      using a by (simp add: nat_diff_distrib)
    then show ?thesis by (simp add: drop_take)
  qed
  also have "\<dots> = py_slice xs i j"
    by (rule py_slice_in_range[symmetric]) (use a in \<open>auto\<close>)
  finally show ?thesis .
qed

section \<open>Claims about the scanline reconstruction\<close>

text \<open>
  Claim C2. For a stream of at least \<open>h * (1 + w * bpp)\<close> bytes whose filter
  bytes are all in 0..4, \<open>_unfilter_scanlines\<close> returns a buffer of \<open>h * w * bpp\<close>
  bytes in which every byte is the specified formula for its row's filter type, applied to
  the filtered byte and to the reconstructed left, up and up-left neighbours (0 where the
  neighbour would lie before the first pixel or above row 0); \<open>_paeth\<close> is the specified
  predictor.
\<close>

theorem unfilter_scanlines_formula:
  assumes "0 \<le> w" and "0 \<le> h" and "0 < bpp"
    and "h * (1 + w * bpp) \<le> int (length raw)"
    and "\<forall>y. 0 \<le> y \<and> y < h \<longrightarrow> uint (raw ! nat (y * (1 + w * bpp))) \<le> 4"
  shows "\<exists>out. unfilter_scanlines raw w h bpp = Inr out \<and>
           length out = nat (h * (w * bpp)) \<and>
           (\<forall>y x. 0 \<le> y \<and> y < h \<and> 0 \<le> x \<and> x < w * bpp \<longrightarrow>
              reconstructed_at raw (w * bpp) bpp out y x) \<and>
           (\<forall>a b c. paeth a b c = paeth_predictor a b c)"
proof -
  from unfilter_scanlines_reconstructs[OF assms(1-4)] assms(5)
  obtain out where out: "unfilter_scanlines raw w h bpp = Inr out"
    and inv: "unf_inv raw (w * bpp) bpp h h 0 out"
    by blast
  from inv have "length out = nat (h * (w * bpp))"
    and "\<forall>y x. 0 \<le> y \<and> y < h \<and> 0 \<le> x \<and> x < w * bpp \<longrightarrow>
              reconstructed_at raw (w * bpp) bpp out y x"
    unfolding unf_inv_def by auto
  with out show ?thesis by (simp add: paeth_eq_predictor)
qed

theorem unfilter_scanlines_formula_witness:
  "unfilter_scanlines [1, 10, 20, 30, 4, 1, 2, 3] 1 2 3 = Inr [10, 20, 30, 11, 22, 33] \<and>
   reconstructed_at [1, 10, 20, 30, 4, 1, 2, 3] 3 3 [10, 20, 30, 11, 22, 33] 1 2"
proof -
  define raw :: "byte list" where "raw = [1, 10, 20, 30, 4, 1, 2, 3]"
  have ev: "unfilter_scanlines raw 1 2 3 = Inr [10, 20, 30, 11, 22, 33]"
    unfolding raw_def by code_simp
  have f: "\<forall>y. 0 \<le> y \<and> y < 2 \<longrightarrow> uint (raw ! nat (y * (1 + 1 * 3))) \<le> 4"
  proof (intro allI impI)
    fix y :: int
    assume "0 \<le> y \<and> y < 2"
    then have "y = 0 \<or> y = 1" by arith
    then show "uint (raw ! nat (y * (1 + 1 * 3))) \<le> 4"
      by (auto simp: raw_def)
  qed
  have "\<exists>out. unfilter_scanlines raw 1 2 3 = Inr out \<and>
           length out = nat (2 * (1 * 3)) \<and>
           (\<forall>y x. 0 \<le> y \<and> y < 2 \<and> 0 \<le> x \<and> x < 1 * 3 \<longrightarrow>
              reconstructed_at raw (1 * 3) 3 out y x) \<and>
           (\<forall>a b c. paeth a b c = paeth_predictor a b c)"
    by (rule unfilter_scanlines_formula) (use f in \<open>simp_all add: raw_def\<close>)
  with ev have "reconstructed_at raw 3 3 [10, 20, 30, 11, 22, 33] 1 2" by auto
  with ev show ?thesis by (simp add: raw_def)
qed

text \<open>
  Claim C10. When the stream is longer than \<open>h * (1 + w * bpp)\<close>, the result
  (the buffer, or the error of a filter byte) is that of the stream cut to this length, and
  no length error is raised.
\<close>

theorem unfilter_scanlines_ignores_surplus:
  assumes "0 \<le> w" and "0 \<le> h" and "0 \<le> bpp"
    and "h * (1 + w * bpp) < int (length raw)"
  shows "unfilter_scanlines raw w h bpp =
           unfilter_scanlines (take (nat (h * (1 + w * bpp))) raw) w h bpp \<and>
         (\<forall>got expected. unfilter_scanlines raw w h bpp \<noteq> Inl (IdatTooSmall got expected))"
proof -
  define rb where "rb = w * bpp"
  define n where "n = nat (h * (1 + rb))"
  have rb: "0 \<le> rb" using assms by (simp add: rb_def)
  have n: "int n = h * (1 + rb)" using assms rb by (simp add: n_def)
  have nlen: "n \<le> length raw" using assms(4) n by (simp add: rb_def)
  have body: "unfilter_row raw rb (1 + rb) bpp s y = unfilter_row (take n raw) rb (1 + rb) bpp s y"
    if "y \<in> set (py_range h)" for s y
  proof -
    from that have y: "0 \<le> y" "y < h" by (auto simp: py_range_def)
    have w: "0 \<le> y * (1 + rb)" "y * (1 + rb) + 1 + rb \<le> int n"
      using row_window[OF y rb, of "int n"] n by simp_all
    have g: "py_get (take n raw) (y * (1 + rb)) = py_get raw (y * (1 + rb))"
      by (rule py_get_take) (use w rb nlen in \<open>auto\<close>)
    have sl: "py_slice (take n raw) (y * (1 + rb) + 1) (y * (1 + rb) + 1 + rb) =
              py_slice raw (y * (1 + rb) + 1) (y * (1 + rb) + 1 + rb)"
      by (rule py_slice_take) (use w rb nlen in \<open>auto\<close>)
    show ?thesis unfolding unfilter_row_def Let_def g sl ..
  qed
  have loops: "for_loop (py_range h) (unfilter_row raw rb (1 + rb) bpp) out =
        for_loop (py_range h) (unfilter_row (take n raw) rb (1 + rb) bpp) out" for out
    by (rule for_loop_cong_on) (rule body)
  have l1: "\<not> int (length raw) < h * (1 + rb)"
    using assms(4) by (simp add: rb_def)
  have l2: "\<not> int (min (length raw) n) < h * (1 + rb)"
    using nlen n by (simp add: min_def)
  have eq: "unfilter_scanlines raw w h bpp =
      unfilter_scanlines (take (nat (h * (1 + w * bpp))) raw) w h bpp"
    unfolding unfilter_scanlines_def Let_def rb_def[symmetric] n_def[symmetric]
    by (simp add: l1 l2 loops split: sum.splits)
  have "unfilter_scanlines raw w h bpp \<noteq> Inl (IdatTooSmall got expected)" for got expected
    using unfilter_scanlines_Inl[of raw w h bpp "IdatTooSmall got expected"] assms(4)
    by auto
  with eq show ?thesis by blast
qed

theorem unfilter_scanlines_ignores_surplus_witness:
  "unfilter_scanlines [1, 10, 20, 30, 4, 1, 2, 3, 99, 98] 1 2 3 =
   unfilter_scanlines [1, 10, 20, 30, 4, 1, 2, 3] 1 2 3 \<and>
   unfilter_scanlines [1, 10, 20, 30, 4, 1, 2, 3, 99, 98] 1 2 3 = Inr [10, 20, 30, 11, 22, 33]"
proof -
  have "unfilter_scanlines [1, 10, 20, 30, 4, 1, 2, 3, 99, 98] 1 2 3 =
        unfilter_scanlines (take (nat (2 * (1 + 1 * 3))) [1, 10, 20, 30, 4, 1, 2, 3, 99, 98]) 1 2 3"
    using unfilter_scanlines_ignores_surplus[of 1 2 3 "[1, 10, 20, 30, 4, 1, 2, 3, 99, 98]"]
    by simp
  moreover have "unfilter_scanlines [1, 10, 20, 30, 4, 1, 2, 3] 1 2 3 = Inr [10, 20, 30, 11, 22, 33]"
    by code_simp
  ultimately show ?thesis by simp
qed

section \<open>The border scan and the ranking of the seed colours\<close>

lemma pixel_index_bounds:
  assumes "in_image w h x y"
  shows "0 \<le> y * w + x" "y * w + x < w * h"
proof -
  from assms have a: "0 \<le> x" "x < w" "0 \<le> y" "y < h" by (simp_all add: in_image_def)
  show "0 \<le> y * w + x" using a by simp
  show "y * w + x < w * h" using row_idx_bound[OF a(1,2,4)] by (simp add: mult.commute)
qed

lemma get_rgb_in_image:
  assumes "in_image (width img) (height img) x y"
    and "int (length (rgba img)) = width img * height img * 4"
  shows "get_rgb (rgba img) (width img) x y = Inr (pixel_rgb img x y)"
proof -
  define i where "i = y * width img + x"
  have i: "0 \<le> i" "i < width img * height img"
    using pixel_index_bounds[OF assms(1)] by (simp_all add: i_def)
  define n where "n = width img * height img"
  have len: "int (length (rgba img)) = n * 4" using assms(2) by (simp add: n_def)
  have b: "0 \<le> i * 4" "i * 4 + 2 < int (length (rgba img))"
    using i len by (simp_all add: n_def[symmetric])
  have "py_get (rgba img) (i * 4) = Inr (rgba img ! nat (i * 4))"
    "py_get (rgba img) (i * 4 + 1) = Inr (rgba img ! nat (i * 4 + 1))"
    "py_get (rgba img) (i * 4 + 2) = Inr (rgba img ! nat (i * 4 + 2))"
    using b by (simp_all add: py_get_in_range)
  then show ?thesis
    unfolding get_rgb_def pixel_rgb_def Let_def i_def[symmetric] by simp
qed

lemma for_loop_append:
  assumes "\<And>i s. i \<in> set xs \<Longrightarrow> body s i = Inr (s @ F i)"
  shows "for_loop xs body s = Inr (s @ concat (map F xs))"
  using assms by (induction xs arbitrary: s) simp_all

lemma py_range_step_mem: "i \<in> set (py_range_step n step) \<Longrightarrow> 0 \<le> i \<and> i < n"
  by (auto simp: py_range_step_def)

lemma sample_border_colors_scan:
  assumes "int (length (rgba img)) = width img * height img * 4"
    and "0 < width img" and "0 < height img"
  shows "sample_border_colors img step = Inr (border_scan img step)"
proof -
  have x: "sample_x (rgba img) (width img) (height img) s i =
       Inr (s @ [pixel_rgb img i 0, pixel_rgb img i (height img - 1)])"
    if "i \<in> set (py_range_step (width img) step)" for s i
  proof -
    from that have "in_image (width img) (height img) i 0"
      "in_image (width img) (height img) i (height img - 1)"
      using assms py_range_step_mem[OF that] by (simp_all add: in_image_def)
    then show ?thesis
      by (simp add: sample_x_def get_rgb_in_image assms(1))
  qed
  have y: "sample_y (rgba img) (width img) (height img) s i =
       Inr (s @ [pixel_rgb img 0 i, pixel_rgb img (width img - 1) i])"
    if "i \<in> set (py_range_step (height img) step)" for s i
  proof -
    from that have "in_image (width img) (height img) 0 i"
      "in_image (width img) (height img) (width img - 1) i"
      using assms py_range_step_mem[OF that] by (simp_all add: in_image_def)
    then show ?thesis
      by (simp add: sample_y_def get_rgb_in_image assms(1))
  qed
  show ?thesis
    unfolding sample_border_colors_def Let_def border_scan_def
    by (simp add: for_loop_append[where F = "\<lambda>x. [pixel_rgb img x 0, pixel_rgb img x (height img - 1)]", OF x]
                  for_loop_append[where F = "\<lambda>y. [pixel_rgb img 0 y, pixel_rgb img (width img - 1) y]", OF y])
qed

lemma firsts_snoc: "firsts (xs @ [x]) = (if x \<in> set xs then firsts xs else firsts xs @ [x])"
  by (simp add: firsts_def)

lemma firsts_set [simp]: "set (firsts xs) = set xs"
  by (simp add: firsts_def)

lemma firsts_distinct [simp]: "distinct (firsts xs)"
  by (simp add: firsts_def)

lemma first_pos_snoc_old: "c \<in> set xs \<Longrightarrow> first_pos (xs @ [x]) c = first_pos xs c"
  by (simp add: first_pos_def takeWhile_append1)

lemma first_pos_less: "c \<in> set xs \<Longrightarrow> first_pos xs c < length xs"
proof -
  assume c: "c \<in> set xs"
  have "length (takeWhile (\<lambda>x. x \<noteq> c) xs) + length (dropWhile (\<lambda>x. x \<noteq> c) xs) = length xs"
    by (metis takeWhile_dropWhile_id length_append)
  moreover have "dropWhile (\<lambda>x. x \<noteq> c) xs \<noteq> []"
    using c by (simp add: dropWhile_eq_Nil_conv)
  ultimately show ?thesis by (cases "dropWhile (\<lambda>x. x \<noteq> c) xs") (simp_all add: first_pos_def)
qed

lemma first_pos_snoc_new: "x \<notin> set xs \<Longrightarrow> first_pos (xs @ [x]) x = length xs"
  unfolding first_pos_def by (subst takeWhile_append2) auto

lemma firsts_sorted: "sorted_wrt (\<lambda>a b. first_pos xs a < first_pos xs b) (firsts xs)"
proof (induction xs rule: rev_induct)
  case Nil
  then show ?case by (simp add: firsts_def)
next
  case (snoc x xs)
  have old: "sorted_wrt (\<lambda>a b. first_pos (xs @ [x]) a < first_pos (xs @ [x]) b) (firsts xs)"
    by (rule sorted_wrt_mono_rel[OF _ snoc.IH]) (simp add: first_pos_snoc_old)
  show ?case
  proof (cases "x \<in> set xs")
    case True
    with old show ?thesis by (simp add: firsts_snoc)
  next
    case False
    then have "\<forall>c \<in> set (firsts xs). first_pos (xs @ [x]) c < first_pos (xs @ [x]) x"
      by (simp add: first_pos_snoc_old first_pos_snoc_new first_pos_less)
    with old False show ?thesis by (simp add: firsts_snoc sorted_wrt_append)
  qed
qed

lemma counter_add_map:
  "distinct L \<Longrightarrow>
   counter_add (map (\<lambda>c. (c, g c)) L) x =
     (if x \<in> set L then map (\<lambda>c. (c, if c = x then g c + 1 else g c)) L
      else map (\<lambda>c. (c, g c)) L @ [(x, 1)])"
  by (induction L) auto

lemma Counter_snoc: "Counter (xs @ [x]) = counter_add (Counter xs) x"
  by (simp add: Counter_def)

lemma Counter_eq: "Counter xs = map (\<lambda>c. (c, int (count_list xs c))) (firsts xs)"
proof (induction xs rule: rev_induct)
  case Nil
  then show ?case by (simp add: Counter_def firsts_def)
next
  case (snoc x xs)
  show ?case
  proof (cases "x \<in> set xs")
    case True
    then show ?thesis
      by (simp add: Counter_snoc snoc.IH counter_add_map firsts_snoc)
  next
    case False
    then show ?thesis
      by (auto simp: Counter_snoc snoc.IH counter_add_map firsts_snoc count_list_0_iff)
  qed
qed

lemma insort_key_sorted_wrt:
  assumes "sorted_wrt (\<lambda>a b. f a < f b \<or> (f a = f b \<and> B a b)) S"
    and "\<forall>y \<in> set S. B x y"
  shows "sorted_wrt (\<lambda>a b. f a < f b \<or> (f a = f b \<and> B a b)) (insort_key f x S)"
  using assms
proof (induction S)
  case Nil
  then show ?case by simp
next
  case (Cons y ys)
  show ?case
  proof (cases "f x \<le> f y")
    case True
    have "\<forall>z \<in> set (y # ys). f x < f z \<or> (f x = f z \<and> B x z)"
    proof
      fix z assume z: "z \<in> set (y # ys)"
      have "f y \<le> f z" using Cons.prems(1) z by auto
      with True have "f x \<le> f z" by simp
      with Cons.prems(2) z show "f x < f z \<or> (f x = f z \<and> B x z)" by auto
    qed
    with True Cons.prems(1) show ?thesis by simp
  next
    case False
    have tail: "sorted_wrt (\<lambda>a b. f a < f b \<or> (f a = f b \<and> B a b)) (insort_key f x ys)"
      using Cons by simp
    have "\<forall>z \<in> set (insort_key f x ys). f y < f z \<or> (f y = f z \<and> B y z)"
      using Cons.prems(1) False by (auto simp: set_insort_key)
    with False tail show ?thesis by simp
  qed
qed

lemma sort_key_sorted_wrt:
  fixes f :: "'a \<Rightarrow> 'k::linorder"
  assumes "sorted_wrt B xs"
  shows "sorted_wrt (\<lambda>a b. f a < f b \<or> (f a = f b \<and> B a b)) (sort_key f xs)"
  using assms
proof (induction xs)
  case Nil
  then show ?case by simp
next
  case (Cons x xs)
  then show ?case by (simp add: insort_key_sorted_wrt)
qed

lemma seeds_ranked:
  fixes colors :: "'a list" and K :: int
  defines "seeds \<equiv> map fst (most_common (Counter colors) K)"
  shows "distinct seeds" and "set seeds \<subseteq> set colors"
    and "length seeds = min (nat K) (card (set colors))"
    and "sorted_wrt (ranks_before colors) seeds"
    and "\<forall>c \<in> set colors - set seeds. \<forall>s \<in> set seeds. ranks_before colors s c"
proof -
  define L where "L = Counter colors"
  define key :: "'a \<times> int \<Rightarrow> int" where "key = (\<lambda>(k, c). - c)"
  define S where "S = sort_key key L"
  define B :: "'a \<times> int \<Rightarrow> 'a \<times> int \<Rightarrow> bool"
    where "B = (\<lambda>a b. first_pos colors (fst a) < first_pos colors (fst b))"
  have L: "L = map (\<lambda>c. (c, int (count_list colors c))) (firsts colors)"
    by (simp add: L_def Counter_eq)
  have fstL: "map fst L = firsts colors" by (simp add: L comp_def)
  have LB: "sorted_wrt B L"
    unfolding L B_def by (simp add: sorted_wrt_map firsts_sorted)
  have SR: "sorted_wrt (\<lambda>a b. key a < key b \<or> (key a = key b \<and> B a b)) S"
    unfolding S_def by (rule sort_key_sorted_wrt[OF LB])
  have setS: "set S = set L" by (simp add: S_def)
  have item: "snd a = int (count_list colors (fst a))" if "a \<in> set S" for a
    using that unfolding setS L by auto
  have "sorted_wrt (\<lambda>a b. ranks_before colors (fst a) (fst b)) S"
  proof (rule sorted_wrt_mono_rel[OF _ SR])
    fix a b assume "a \<in> set S" "b \<in> set S"
      and "key a < key b \<or> (key a = key b \<and> B a b)"
    then show "ranks_before colors (fst a) (fst b)"
      using item[of a] item[of b]
      by (simp add: key_def B_def ranks_before_def split_beta)
  qed
  then have ranked: "sorted_wrt (ranks_before colors) (map fst S)"
    by (simp add: sorted_wrt_map)
  have "distinct (map fst L)" by (simp add: fstL)
  then have "distinct L" "inj_on fst (set L)" by (simp_all add: distinct_map)
  then have dS: "distinct (map fst S)"
    by (simp add: distinct_map S_def)
  have sS: "set (map fst S) = set colors"
    using arg_cong[OF fstL, of set] by (simp add: setS)
  have "length (map fst S) = length (firsts colors)"
    using arg_cong[OF fstL, of length] by (simp add: S_def)
  then have lS: "length (map fst S) = card (set colors)"
    using distinct_card[OF firsts_distinct[of colors]] by simp
  have seeds: "seeds = (if K \<le> 0 then [] else take (nat K) (map fst S))"
    by (simp add: seeds_def most_common_def L_def S_def key_def take_map)
  then have seeds': "seeds = take (nat K) (map fst S)" by auto
  show "distinct seeds" using dS by (simp add: seeds')
  show "set seeds \<subseteq> set colors" using sS set_take_subset[of "nat K" "map fst S"] by (simp add: seeds')
  show "length seeds = min (nat K) (card (set colors))" using lS by (simp add: seeds' min.commute)
  show "sorted_wrt (ranks_before colors) seeds"
    using ranked unfolding seeds' by (rule sorted_wrt_take)
  show "\<forall>c \<in> set colors - set seeds. \<forall>s \<in> set seeds. ranks_before colors s c"
  proof (intro ballI)
    fix c s assume c: "c \<in> set colors - set seeds" and s: "s \<in> set seeds"
    have split: "map fst S = seeds @ drop (nat K) (map fst S)" by (simp add: seeds')
    from c sS have "c \<in> set (map fst S)" by simp
    then have "c \<in> set (drop (nat K) (map fst S))"
      using c by (subst (asm) split) auto
    moreover have "sorted_wrt (ranks_before colors) (seeds @ drop (nat K) (map fst S))"
      using ranked split by simp
    ultimately show "ranks_before colors s c" using s by (auto simp: sorted_wrt_append)
  qed
qed

section \<open>The flood fill clears the border-connected region\<close>

lemma pixel_index_inj:
  assumes "in_image w h x y" "in_image w h x' y'" "y * w + x = y' * w + x'"
  shows "x = x' \<and> y = y'"
proof -
  from assms have a: "0 \<le> x" "x < w" "0 \<le> x'" "x' < w" by (simp_all add: in_image_def)
  have "\<not> y < y'"
  proof
    assume "y < y'"
    from row_idx_lt[OF a(1,2) this] a assms(3) show False by simp
  qed
  moreover have "\<not> y' < y"
  proof
    assume "y' < y"
    from row_idx_lt[OF a(3,4) this] a assms(3) show False by simp
  qed
  ultimately have "y = y'" by simp
  with assms(3) show ?thesis by simp
qed

lemma pixel_nat_index_inj:
  assumes "in_image w h x y" "in_image w h x' y'"
  shows "nat (y * w + x) = nat (y' * w + x') \<longleftrightarrow> x = x' \<and> y = y'"
  using pixel_index_bounds(1)[OF assms(1)] pixel_index_bounds(1)[OF assms(2)]
    pixel_index_inj[OF assms] by auto

lemma push_in_image:
  assumes len: "length (visited st) = nat (w * h)" and p: "in_image w h x y"
  shows "push w st x y =
     Inr (if vis w st x y then st
          else st\<lparr>visited := (visited st)[nat (y * w + x) := 1],
                  qx := qx st @ [x], qy := qy st @ [y]\<rparr>)"
proof -
  have b: "0 \<le> y * w + x" "y * w + x < int (length (visited st))"
    using pixel_index_bounds[OF p] len by simp_all
  show ?thesis
    unfolding push_def Let_def
    by (simp add: py_get_in_range[OF b] py_set_in_range[OF b] vis_def)
qed

lemma vis_update:
  assumes "length (visited st) = nat (w * h)" "in_image w h x y" "in_image w h x' y'"
  shows "vis w (st\<lparr>visited := (visited st)[nat (y * w + x) := 1], qx := a, qy := b\<rparr>) x' y'
         \<longleftrightarrow> (x' = x \<and> y' = y) \<or> vis w st x' y'"
proof -
  have "nat (y' * w + x') < length (visited st)"
    using pixel_index_bounds[OF assms(3)] assms(1) by simp
  then show ?thesis
    using pixel_nat_index_inj[OF assms(2,3)]
    by (auto simp: vis_def nth_list_update)
qed

lemma push_preserves:
  assumes inv: "fill_inv w h P rgba0 E st"
    and p: "in_image w h x y" and c: "candidate w h P x y"
  shows "\<exists>st'. push w st x y = Inr st' \<and> fill_inv w h P rgba0 E st' \<and> vis w st' x y \<and>
           (\<forall>x' y'. in_image w h x' y' \<and> vis w st x' y' \<longrightarrow> vis w st' x' y')"
proof (cases "vis w st x y")
  case True
  have "length (visited st) = nat (w * h)" using inv by (simp add: fill_inv_def)
  then have "push w st x y = Inr st" using True p by (simp add: push_in_image)
  with inv True show ?thesis by blast
next
  case False
  define st' where "st' = st\<lparr>visited := (visited st)[nat (y * w + x) := 1],
                  qx := qx st @ [x], qy := qy st @ [y]\<rparr>"
  have len: "length (visited st) = nat (w * h)" and qlen: "length (qx st) = length (qy st)"
    using inv by (simp_all add: fill_inv_def)
  have run: "push w st x y = Inr st'"
    using False by (simp add: push_in_image[OF len p] st'_def)
  have v: "\<And>x' y'. in_image w h x' y' \<Longrightarrow> vis w st' x' y' \<longleftrightarrow> (x' = x \<and> y' = y) \<or> vis w st x' y'"
    unfolding st'_def by (rule vis_update[OF len p])
  have s: "stack st' = stack st @ [(x, y)]"
    using qlen by (simp add: stack_def st'_def)
  have notin: "(x, y) \<notin> set (stack st)"
    using inv False unfolding fill_inv_def by blast
  have cl: "\<And>x' y'. in_image w h x' y' \<Longrightarrow> cleared w P st' x' y' \<longleftrightarrow> cleared w P st x' y'"
    using False by (auto simp: cleared_def v s)
  have b: "buf st' = buf st" by (simp add: st'_def)
  have i1: "length (visited st') = nat (w * h)" using len by (simp add: st'_def)
  have i2: "length (qx st') = length (qy st')" using qlen by (simp add: st'_def)
  have i3: "length (buf st') = length rgba0" using inv by (simp add: b fill_inv_def)
  have i4: "distinct (stack st')" using inv notin by (simp add: s fill_inv_def)
  have i5: "\<forall>x' y'. (x', y') \<in> set (stack st') \<longrightarrow> in_image w h x' y' \<and> vis w st' x' y'"
  proof (intro allI impI)
    fix x' y' assume "(x', y') \<in> set (stack st')"
    then have "(x', y') = (x, y) \<or> (x', y') \<in> set (stack st)" by (auto simp: s)
    then show "in_image w h x' y' \<and> vis w st' x' y'"
    proof
      assume "(x', y') = (x, y)"
      with p v[OF p] show ?thesis by simp
    next
      assume a: "(x', y') \<in> set (stack st)"
      with inv have "in_image w h x' y'" "vis w st x' y'" unfolding fill_inv_def by blast+
      then show ?thesis using v by blast
    qed
  qed
  have i6: "\<forall>x' y'. in_image w h x' y' \<and> vis w st' x' y' \<longrightarrow> candidate w h P x' y'"
  proof (intro allI impI)
    fix x' y' assume a: "in_image w h x' y' \<and> vis w st' x' y'"
    then have "(x' = x \<and> y' = y) \<or> vis w st x' y'" using v by blast
    then show "candidate w h P x' y'"
      using c inv a unfolding fill_inv_def by blast
  qed
  have i7: "\<forall>x' y'. in_image w h x' y' \<longrightarrow>
        buf st' ! nat ((y' * w + x') * 4) = rgba0 ! nat ((y' * w + x') * 4) \<and>
        buf st' ! nat ((y' * w + x') * 4 + 1) = rgba0 ! nat ((y' * w + x') * 4 + 1) \<and>
        buf st' ! nat ((y' * w + x') * 4 + 2) = rgba0 ! nat ((y' * w + x') * 4 + 2) \<and>
        buf st' ! nat ((y' * w + x') * 4 + 3) =
          (if cleared w P st' x' y' then 0 else rgba0 ! nat ((y' * w + x') * 4 + 3))"
  proof (intro allI impI)
    fix x' y' assume a: "in_image w h x' y'"
    from inv a have
      "buf st ! nat ((y' * w + x') * 4) = rgba0 ! nat ((y' * w + x') * 4) \<and>
       buf st ! nat ((y' * w + x') * 4 + 1) = rgba0 ! nat ((y' * w + x') * 4 + 1) \<and>
       buf st ! nat ((y' * w + x') * 4 + 2) = rgba0 ! nat ((y' * w + x') * 4 + 2) \<and>
       buf st ! nat ((y' * w + x') * 4 + 3) =
         (if cleared w P st x' y' then 0 else rgba0 ! nat ((y' * w + x') * 4 + 3))"
      unfolding fill_inv_def by blast
    then show "buf st' ! nat ((y' * w + x') * 4) = rgba0 ! nat ((y' * w + x') * 4) \<and>
        buf st' ! nat ((y' * w + x') * 4 + 1) = rgba0 ! nat ((y' * w + x') * 4 + 1) \<and>
        buf st' ! nat ((y' * w + x') * 4 + 2) = rgba0 ! nat ((y' * w + x') * 4 + 2) \<and>
        buf st' ! nat ((y' * w + x') * 4 + 3) =
          (if cleared w P st' x' y' then 0 else rgba0 ! nat ((y' * w + x') * 4 + 3))"
      unfolding b cl[OF a] .
  qed
  have i8: "\<forall>xa ya x' y'. in_image w h xa ya \<and> cleared w P st' xa ya \<and> (xa, ya) \<notin> E \<and>
        adjacent4 xa ya x' y' \<and> in_image w h x' y' \<longrightarrow> vis w st' x' y'"
  proof (intro allI impI)
    fix xa ya x' y'
    assume a: "in_image w h xa ya \<and> cleared w P st' xa ya \<and> (xa, ya) \<notin> E \<and>
        adjacent4 xa ya x' y' \<and> in_image w h x' y'"
    then have "cleared w P st xa ya" using cl by blast
    with inv a have "vis w st x' y'" unfolding fill_inv_def by blast
    with a show "vis w st' x' y'" using v by blast
  qed
  have "fill_inv w h P rgba0 E st'"
    unfolding fill_inv_def by (intro conjI i1 i2 i3 i4 i5 i6 i7 i8)
  moreover have "vis w st' x y" using v[OF p] by simp
  moreover have "\<forall>x' y'. in_image w h x' y' \<and> vis w st x' y' \<longrightarrow> vis w st' x' y'"
    using v by blast
  ultimately show ?thesis using run by blast
qed

lemma push_if_preserves:
  assumes inv: "fill_inv w h P rgba0 E st"
    and c: "c \<Longrightarrow> in_image w h x y \<and> candidate w h P x y"
  shows "\<exists>st'. push_if c w st x y = Inr st' \<and> fill_inv w h P rgba0 E st' \<and> (c \<longrightarrow> vis w st' x y) \<and>
           (\<forall>x' y'. in_image w h x' y' \<and> vis w st x' y' \<longrightarrow> vis w st' x' y')"
proof (cases c)
  case True
  with push_preserves[OF inv, of x y] c show ?thesis by (simp add: push_if_def)
next
  case False
  with inv show ?thesis by (simp add: push_if_def)
qed

lemma fill_inv_close:
  assumes inv: "fill_inv w h P rgba0 E st"
    and nb: "\<And>x y x' y'. (x, y) \<in> E \<Longrightarrow> adjacent4 x y x' y' \<Longrightarrow> in_image w h x' y' \<Longrightarrow> vis w st x' y'"
  shows "fill_inv w h P rgba0 {} st"
proof -
  have "\<forall>x y x' y'. in_image w h x y \<and> cleared w P st x y \<and> (x, y) \<notin> {} \<and>
        adjacent4 x y x' y' \<and> in_image w h x' y' \<longrightarrow> vis w st x' y'"
  proof (intro allI impI)
    fix x y x' y'
    assume a: "in_image w h x y \<and> cleared w P st x y \<and> (x, y) \<notin> {} \<and>
        adjacent4 x y x' y' \<and> in_image w h x' y'"
    show "vis w st x' y'"
    proof (cases "(x, y) \<in> E")
      case True
      with a nb show ?thesis by blast
    next
      case False
      with inv a show ?thesis unfolding fill_inv_def by blast
    qed
  qed
  with inv show ?thesis unfolding fill_inv_def by blast
qed

lemma alpha_index_neq:
  assumes "in_image w h x y" "in_image w h x' y'" "(x', y') \<noteq> (x, y) \<or> k \<noteq> 3" "0 \<le> k" "k \<le> 3"
  shows "nat ((y' * w + x') * 4 + k) \<noteq> nat ((y * w + x) * 4 + 3)"
proof
  assume e: "nat ((y' * w + x') * 4 + k) = nat ((y * w + x) * 4 + 3)"
  define i where "i = y * w + x"
  define i' where "i' = y' * w + x'"
  have "0 \<le> i" "0 \<le> i'"
    using pixel_index_bounds(1)[OF assms(1)] pixel_index_bounds(1)[OF assms(2)]
    by (simp_all add: i_def i'_def)
  with e assms(4,5) have "i' * 4 + k = i * 4 + 3"
    unfolding i_def[symmetric] i'_def[symmetric] by linarith
  with assms(4,5) have "i' = i \<and> k = 3" by presburger
  with pixel_index_inj[OF assms(2,1)] assms(3) show False
    by (simp add: i_def i'_def)
qed

lemma pixel_byte_bound:
  assumes "in_image w h x y" "int n = w * h * 4" "0 \<le> k" "k \<le> 3"
  shows "0 \<le> (y * w + x) * 4 + k" "(y * w + x) * 4 + k < int n"
proof -
  define i where "i = y * w + x"
  define m where "m = w * h"
  have "0 \<le> i" "i < m"
    using pixel_index_bounds[OF assms(1)] by (simp_all add: i_def m_def)
  then show "0 \<le> (y * w + x) * 4 + k" "(y * w + x) * 4 + k < int n"
    using assms(2-4) unfolding i_def[symmetric] m_def[symmetric] by simp_all
qed

lemma get_rgb_buf:
  assumes "in_image w h x y" "int (length b) = w * h * 4"
  shows "get_rgb b w x y =
     Inr (uint (b ! nat ((y * w + x) * 4)), uint (b ! nat ((y * w + x) * 4 + 1)),
          uint (b ! nat ((y * w + x) * 4 + 2)))"
proof -
  have "py_get b ((y * w + x) * 4) = Inr (b ! nat ((y * w + x) * 4))"
    using pixel_byte_bound[OF assms, of 0] by (simp add: py_get_in_range)
  moreover have "py_get b ((y * w + x) * 4 + 1) = Inr (b ! nat ((y * w + x) * 4 + 1))"
    using pixel_byte_bound[OF assms, of 1] by (simp add: py_get_in_range)
  moreover have "py_get b ((y * w + x) * 4 + 2) = Inr (b ! nat ((y * w + x) * 4 + 2))"
    using pixel_byte_bound[OF assms, of 2] by (simp add: py_get_in_range)
  ultimately show ?thesis by (simp add: get_rgb_def Let_def)
qed

lemma fill_step_preserves:
  assumes inv: "fill_inv w h P rgba0 {} st"
    and ne: "qx st \<noteq> []"
    and len0: "int (length rgba0) = w * h * 4"
    and P: "\<And>x y. in_image w h x y \<Longrightarrow>
       P x y = is_bg seeds tol_sq
         (uint (rgba0 ! nat ((y * w + x) * 4)), uint (rgba0 ! nat ((y * w + x) * 4 + 1)),
          uint (rgba0 ! nat ((y * w + x) * 4 + 2)))"
  shows "\<exists>st'. fill_step w h seeds tol_sq st = Inr st' \<and> fill_inv w h P rgba0 {} st' \<and>
           (\<forall>x' y'. in_image w h x' y' \<and> vis w st x' y' \<longrightarrow> vis w st' x' y')"
proof -
  have j1: "length (visited st) = nat (w * h)"
    and j2: "length (qx st) = length (qy st)"
    and j3: "length (buf st) = length rgba0"
    and j4: "distinct (stack st)"
    and j5: "\<forall>x y. (x, y) \<in> set (stack st) \<longrightarrow> in_image w h x y \<and> vis w st x y"
    and j6: "\<forall>x y. in_image w h x y \<and> vis w st x y \<longrightarrow> candidate w h P x y"
    and j7: "\<forall>x y. in_image w h x y \<longrightarrow>
        buf st ! nat ((y * w + x) * 4) = rgba0 ! nat ((y * w + x) * 4) \<and>
        buf st ! nat ((y * w + x) * 4 + 1) = rgba0 ! nat ((y * w + x) * 4 + 1) \<and>
        buf st ! nat ((y * w + x) * 4 + 2) = rgba0 ! nat ((y * w + x) * 4 + 2) \<and>
        buf st ! nat ((y * w + x) * 4 + 3) =
          (if cleared w P st x y then 0 else rgba0 ! nat ((y * w + x) * 4 + 3))"
    and j8: "\<forall>x y x' y'. in_image w h x y \<and> cleared w P st x y \<and> (x, y) \<notin> {} \<and>
        adjacent4 x y x' y' \<and> in_image w h x' y' \<longrightarrow> vis w st x' y'"
    using inv unfolding fill_inv_def by blast+
  define x where "x = last (qx st)"
  define y where "y = last (qy st)"
  define st0 where "st0 = st\<lparr>qx := butlast (qx st), qy := butlast (qy st)\<rparr>"
  have ney: "qy st \<noteq> []" using ne j2 by auto
  have qxs: "qx st = butlast (qx st) @ [x]" and qys: "qy st = butlast (qy st) @ [y]"
    using ne ney by (simp_all add: x_def y_def)
  have "zip (butlast (qx st) @ [x]) (butlast (qy st) @ [y]) = zip (butlast (qx st)) (butlast (qy st)) @ [(x, y)]"
    using j2 by (subst zip_append) simp_all
  then have st_stack: "stack st = stack st0 @ [(x, y)]"
    using qxs qys by (simp add: stack_def st0_def)
  have xy: "in_image w h x y" "vis w st x y"
    using j5 st_stack by simp_all
  have notin0: "(x, y) \<notin> set (stack st0)"
    using j4 st_stack by simp
  have vis0: "\<And>a b. vis w st0 a b = vis w st a b" by (simp add: vis_def st0_def)
  have cl0: "\<And>a b. cleared w P st0 a b \<longleftrightarrow> cleared w P st a b \<or> ((a, b) = (x, y) \<and> P x y)"
    using xy(2) notin0 by (auto simp: cleared_def vis0 st_stack)
  have blen: "int (length (buf st)) = w * h * 4" using j3 len0 by simp
  define rgb0 where "rgb0 = (uint (rgba0 ! nat ((y * w + x) * 4)), uint (rgba0 ! nat ((y * w + x) * 4 + 1)),
          uint (rgba0 ! nat ((y * w + x) * 4 + 2)))"
  have rgb: "get_rgb (buf st0) w x y = Inr rgb0"
    using get_rgb_buf[OF xy(1) blen] j7 xy(1) by (simp add: st0_def rgb0_def)
  have Pxy: "P x y = is_bg seeds tol_sq rgb0" unfolding rgb0_def by (rule P[OF xy(1)])
  have pops: "py_pop (qx st) = Inr (x, butlast (qx st))" "py_pop (qy st) = Inr (y, butlast (qy st))"
    using ne ney by (simp_all add: py_pop_def x_def y_def)
  have step: "fill_step w h seeds tol_sq st =
      (if \<not> P x y then Inr st0
       else case py_set (buf st0) ((y * w + x) * 4 + 3) 0 of Inl e \<Rightarrow> Inl e | Inr buf' \<Rightarrow>
         (case push_if (x > 0) w (st0\<lparr>buf := buf'\<rparr>) (x - 1) y of Inl e \<Rightarrow> Inl e | Inr st1 \<Rightarrow>
          case push_if (x + 1 < w) w st1 (x + 1) y of Inl e \<Rightarrow> Inl e | Inr st2 \<Rightarrow>
          case push_if (y > 0) w st2 x (y - 1) of Inl e \<Rightarrow> Inl e | Inr st3 \<Rightarrow>
            push_if (y + 1 < h) w st3 x (y + 1)))"
    unfolding fill_step_def pops Let_def sum.case prod.case st0_def[symmetric] rgb Pxy[symmetric]
    by (rule refl)
  have i1: "length (visited st0) = nat (w * h)" using j1 by (simp add: st0_def)
  have i2: "length (qx st0) = length (qy st0)" using j2 by (simp add: st0_def)
  have i3: "length (buf st0) = length rgba0" using j3 by (simp add: st0_def)
  have i4: "distinct (stack st0)" using j4 st_stack by simp
  have i5: "\<forall>a b. (a, b) \<in> set (stack st0) \<longrightarrow> in_image w h a b \<and> vis w st0 a b"
    using j5 st_stack by (simp add: vis0)
  have i6: "\<forall>a b. in_image w h a b \<and> vis w st0 a b \<longrightarrow> candidate w h P a b"
    using j6 by (simp add: vis0)
  show ?thesis
  proof (cases "P x y")
    case False
    have cl: "\<And>a b. cleared w P st0 a b \<longleftrightarrow> cleared w P st a b"
      using cl0 False by simp
    have i7: "\<forall>x y. in_image w h x y \<longrightarrow>
        buf st0 ! nat ((y * w + x) * 4) = rgba0 ! nat ((y * w + x) * 4) \<and>
        buf st0 ! nat ((y * w + x) * 4 + 1) = rgba0 ! nat ((y * w + x) * 4 + 1) \<and>
        buf st0 ! nat ((y * w + x) * 4 + 2) = rgba0 ! nat ((y * w + x) * 4 + 2) \<and>
        buf st0 ! nat ((y * w + x) * 4 + 3) =
          (if cleared w P st0 x y then 0 else rgba0 ! nat ((y * w + x) * 4 + 3))"
      unfolding cl using j7 by (simp add: st0_def)
    have i8: "\<forall>x y x' y'. in_image w h x y \<and> cleared w P st0 x y \<and> (x, y) \<notin> {} \<and>
        adjacent4 x y x' y' \<and> in_image w h x' y' \<longrightarrow> vis w st0 x' y'"
      unfolding cl vis0 by (rule j8)
    have "fill_inv w h P rgba0 {} st0"
      unfolding fill_inv_def by (intro conjI i1 i2 i3 i4 i5 i6 i7 i8)
    moreover have "fill_step w h seeds tol_sq st = Inr st0" using False step by simp
    ultimately show ?thesis using vis0 by auto
  next
    case True
    define ai where "ai = nat ((y * w + x) * 4 + 3)"
    define buf' where "buf' = (buf st)[ai := 0]"
    define stA where "stA = st0\<lparr>buf := buf'\<rparr>"
    have set_ok: "py_set (buf st0) ((y * w + x) * 4 + 3) 0 = Inr buf'"
      using pixel_byte_bound[OF xy(1) blen, of 3]
      by (simp add: py_set_in_range st0_def buf'_def ai_def)
    have visA: "\<And>a b. vis w stA a b = vis w st a b" by (simp add: vis_def stA_def st0_def)
    have stackA: "stack stA = stack st0" by (simp add: stack_def stA_def)
    have clA: "\<And>a b. cleared w P stA a b \<longleftrightarrow> cleared w P st a b \<or> (a, b) = (x, y)"
      using cl0 True by (simp add: cleared_def visA stackA vis0)
    have a1: "length (visited stA) = nat (w * h)" using i1 by (simp add: stA_def)
    have a2: "length (qx stA) = length (qy stA)" using i2 by (simp add: stA_def)
    have a3: "length (buf stA) = length rgba0" using j3 by (simp add: stA_def buf'_def)
    have a4: "distinct (stack stA)" using i4 by (simp add: stackA)
    have a5: "\<forall>a b. (a, b) \<in> set (stack stA) \<longrightarrow> in_image w h a b \<and> vis w stA a b"
      using i5 by (simp add: stackA visA vis0)
    have a6: "\<forall>a b. in_image w h a b \<and> vis w stA a b \<longrightarrow> candidate w h P a b"
      using j6 by (simp add: visA)
    have a7: "\<forall>a b. in_image w h a b \<longrightarrow>
        buf stA ! nat ((b * w + a) * 4) = rgba0 ! nat ((b * w + a) * 4) \<and>
        buf stA ! nat ((b * w + a) * 4 + 1) = rgba0 ! nat ((b * w + a) * 4 + 1) \<and>
        buf stA ! nat ((b * w + a) * 4 + 2) = rgba0 ! nat ((b * w + a) * 4 + 2) \<and>
        buf stA ! nat ((b * w + a) * 4 + 3) =
          (if cleared w P stA a b then 0 else rgba0 ! nat ((b * w + a) * 4 + 3))"
    proof (intro allI impI)
      fix a b assume ab: "in_image w h a b"
      have old: "buf st ! nat ((b * w + a) * 4) = rgba0 ! nat ((b * w + a) * 4)"
        "buf st ! nat ((b * w + a) * 4 + 1) = rgba0 ! nat ((b * w + a) * 4 + 1)"
        "buf st ! nat ((b * w + a) * 4 + 2) = rgba0 ! nat ((b * w + a) * 4 + 2)"
        "buf st ! nat ((b * w + a) * 4 + 3) =
          (if cleared w P st a b then 0 else rgba0 ! nat ((b * w + a) * 4 + 3))"
        using j7 ab by blast+
      have n0: "nat ((b * w + a) * 4) \<noteq> ai"
        using alpha_index_neq[OF xy(1) ab, of 0] by (simp add: ai_def)
      have n1: "nat ((b * w + a) * 4 + 1) \<noteq> ai"
        using alpha_index_neq[OF xy(1) ab, of 1] by (simp add: ai_def)
      have n2: "nat ((b * w + a) * 4 + 2) \<noteq> ai"
        using alpha_index_neq[OF xy(1) ab, of 2] by (simp add: ai_def)
      have n3: "(a, b) \<noteq> (x, y) \<Longrightarrow> nat ((b * w + a) * 4 + 3) \<noteq> ai"
        using alpha_index_neq[OF xy(1) ab, of 3] by (simp add: ai_def)
      have inb: "ai < length (buf st)"
        using pixel_byte_bound[OF xy(1) blen, of 3] by (simp add: ai_def)
      have e0: "buf stA ! nat ((b * w + a) * 4) = buf st ! nat ((b * w + a) * 4)"
        using n0 by (simp add: stA_def buf'_def)
      have e1: "buf stA ! nat ((b * w + a) * 4 + 1) = buf st ! nat ((b * w + a) * 4 + 1)"
        using n1 by (simp add: stA_def buf'_def)
      have e2: "buf stA ! nat ((b * w + a) * 4 + 2) = buf st ! nat ((b * w + a) * 4 + 2)"
        using n2 by (simp add: stA_def buf'_def)
      have e3: "buf stA ! nat ((b * w + a) * 4 + 3) =
          (if cleared w P stA a b then 0 else rgba0 ! nat ((b * w + a) * 4 + 3))"
      proof (cases "(a, b) = (x, y)")
        case True
        then have "buf stA ! nat ((b * w + a) * 4 + 3) = 0"
          using inb by (simp add: stA_def buf'_def ai_def)
        with True show ?thesis by (simp add: clA)
      next
        case False
        then have "buf stA ! nat ((b * w + a) * 4 + 3) = buf st ! nat ((b * w + a) * 4 + 3)"
          using n3 by (simp add: stA_def buf'_def)
        moreover have "cleared w P stA a b = cleared w P st a b"
          using False by (auto simp: clA)
        ultimately show ?thesis using old(4) by simp
      qed
      show "buf stA ! nat ((b * w + a) * 4) = rgba0 ! nat ((b * w + a) * 4) \<and>
        buf stA ! nat ((b * w + a) * 4 + 1) = rgba0 ! nat ((b * w + a) * 4 + 1) \<and>
        buf stA ! nat ((b * w + a) * 4 + 2) = rgba0 ! nat ((b * w + a) * 4 + 2) \<and>
        buf stA ! nat ((b * w + a) * 4 + 3) =
          (if cleared w P stA a b then 0 else rgba0 ! nat ((b * w + a) * 4 + 3))"
        using e0 e1 e2 e3 old(1-3) by simp
    qed
    have a8: "\<forall>a b x' y'. in_image w h a b \<and> cleared w P stA a b \<and> (a, b) \<notin> {(x, y)} \<and>
        adjacent4 a b x' y' \<and> in_image w h x' y' \<longrightarrow> vis w stA x' y'"
      unfolding visA using j8 clA by auto
    have invA: "fill_inv w h P rgba0 {(x, y)} stA"
      unfolding fill_inv_def by (intro conjI a1 a2 a3 a4 a5 a6 a7 a8)
    have reg: "region w h P x y"
    proof -
      from j6 xy have "candidate w h P x y" by blast
      then show ?thesis
        unfolding candidate_def using xy(1) True by (auto intro: region.edge region.step)
    qed
    have cand: "\<And>a b. adjacent4 x y a b \<Longrightarrow> candidate w h P a b"
      unfolding candidate_def using reg by blast
    have in_img: "0 \<le> x" "x < w" "0 \<le> y" "y < h" using xy(1) by (simp_all add: in_image_def)
    from push_if_preserves[OF invA, of "x > 0" "x - 1" y]
    obtain st1 where s1: "push_if (x > 0) w stA (x - 1) y = Inr st1"
      and inv1: "fill_inv w h P rgba0 {(x, y)} st1"
      and v1: "x > 0 \<longrightarrow> vis w st1 (x - 1) y"
      and m1: "\<forall>x' y'. in_image w h x' y' \<and> vis w stA x' y' \<longrightarrow> vis w st1 x' y'"
      using in_img cand[of "x - 1" y] by (auto simp: in_image_def adjacent4_def)
    from push_if_preserves[OF inv1, of "x + 1 < w" "x + 1" y]
    obtain st2 where s2: "push_if (x + 1 < w) w st1 (x + 1) y = Inr st2"
      and inv2: "fill_inv w h P rgba0 {(x, y)} st2"
      and v2: "x + 1 < w \<longrightarrow> vis w st2 (x + 1) y"
      and m2: "\<forall>x' y'. in_image w h x' y' \<and> vis w st1 x' y' \<longrightarrow> vis w st2 x' y'"
      using in_img cand[of "x + 1" y] by (auto simp: in_image_def adjacent4_def)
    from push_if_preserves[OF inv2, of "y > 0" x "y - 1"]
    obtain st3 where s3: "push_if (y > 0) w st2 x (y - 1) = Inr st3"
      and inv3: "fill_inv w h P rgba0 {(x, y)} st3"
      and v3: "y > 0 \<longrightarrow> vis w st3 x (y - 1)"
      and m3: "\<forall>x' y'. in_image w h x' y' \<and> vis w st2 x' y' \<longrightarrow> vis w st3 x' y'"
      using in_img cand[of x "y - 1"] by (auto simp: in_image_def adjacent4_def)
    from push_if_preserves[OF inv3, of "y + 1 < h" x "y + 1"]
    obtain st4 where s4: "push_if (y + 1 < h) w st3 x (y + 1) = Inr st4"
      and inv4: "fill_inv w h P rgba0 {(x, y)} st4"
      and v4: "y + 1 < h \<longrightarrow> vis w st4 x (y + 1)"
      and m4: "\<forall>x' y'. in_image w h x' y' \<and> vis w st3 x' y' \<longrightarrow> vis w st4 x' y'"
      using in_img cand[of x "y + 1"] by (auto simp: in_image_def adjacent4_def)
    have run: "fill_step w h seeds tol_sq st = Inr st4"
      using True step set_ok s1 s2 s3 s4 by (simp add: stA_def)
    have nbs: "vis w st4 a b" if "adjacent4 x y a b" "in_image w h a b" for a b
    proof -
      from that(1) consider "a = x - 1 \<and> b = y" | "a = x + 1 \<and> b = y"
        | "a = x \<and> b = y - 1" | "a = x \<and> b = y + 1"
        unfolding adjacent4_def by auto
      then show ?thesis
      proof cases
        case 1
        with that(2) have "x > 0" by (simp add: in_image_def)
        with v1 1 that(2) m2 m3 m4 show ?thesis by blast
      next
        case 2
        with that(2) have "x + 1 < w" by (simp add: in_image_def)
        with v2 2 that(2) m3 m4 show ?thesis by blast
      next
        case 3
        with that(2) have "y > 0" by (simp add: in_image_def)
        with v3 3 that(2) m4 show ?thesis by blast
      next
        case 4
        with that(2) have "y + 1 < h" by (simp add: in_image_def)
        with v4 4 show ?thesis by blast
      qed
    qed
    have "fill_inv w h P rgba0 {} st4"
      by (rule fill_inv_close[OF inv4]) (use nbs in \<open>auto\<close>)
    moreover have "\<forall>x' y'. in_image w h x' y' \<and> vis w st x' y' \<longrightarrow> vis w st4 x' y'"
      using m1 m2 m3 m4 visA by blast
    ultimately show ?thesis using run by blast
  qed
qed

lemma fill_loop_preserves:
  assumes len0: "int (length rgba0) = w * h * 4"
    and P: "\<And>x y. in_image w h x y \<Longrightarrow>
       P x y = is_bg seeds tol_sq
         (uint (rgba0 ! nat ((y * w + x) * 4)), uint (rgba0 ! nat ((y * w + x) * 4 + 1)),
          uint (rgba0 ! nat ((y * w + x) * 4 + 2)))"
  shows "fill_inv w h P rgba0 {} st \<Longrightarrow>
         \<exists>st'. fill_loop w h seeds tol_sq st = Inr st' \<and> fill_inv w h P rgba0 {} st' \<and> qx st' = [] \<and>
           (\<forall>x' y'. in_image w h x' y' \<and> vis w st x' y' \<longrightarrow> vis w st' x' y')"
  using assms
proof (induction w h seeds tol_sq st rule: fill_loop.induct)
  case (1 w h seeds tol_sq st)
  show ?case
  proof (cases "qx st = []")
    case True
    with "1.prems"(1) show ?thesis by (simp add: fill_loop.simps)
  next
    case False
    from fill_step_preserves[OF "1.prems"(1) False "1.prems"(2)] "1.prems"(3)
    obtain st1 where s: "fill_step w h seeds tol_sq st = Inr st1"
      and i: "fill_inv w h P rgba0 {} st1"
      and m: "\<forall>x' y'. in_image w h x' y' \<and> vis w st x' y' \<longrightarrow> vis w st1 x' y'"
      by blast
    from "1.IH"[OF False s i "1.prems"(2)] "1.prems"(3)
    obtain st' where l: "fill_loop w h seeds tol_sq st1 = Inr st'"
      and i': "fill_inv w h P rgba0 {} st'" and e: "qx st' = []"
      and m': "\<forall>x' y'. in_image w h x' y' \<and> vis w st1 x' y' \<longrightarrow> vis w st' x' y'"
      by blast
    have "fill_loop w h seeds tol_sq st = Inr st'"
      using False s l by (simp add: fill_loop.simps[of w h seeds tol_sq st])
    with i' e m m' show ?thesis by blast
  qed
qed

lemma fill_inv_init:
  assumes "0 \<le> w * h"
  shows "fill_inv w h P rgba0 {} \<lparr>buf = rgba0, visited = replicate (nat (w * h)) 0, qx = [], qy = []\<rparr>"
proof -
  have nv: "\<not> vis w \<lparr>buf = rgba0, visited = replicate (nat (w * h)) 0, qx = [], qy = []\<rparr> x y"
    if "in_image w h x y" for x y
    using pixel_index_bounds[OF that] by (simp add: vis_def)
  then have nc: "\<not> cleared w P \<lparr>buf = rgba0, visited = replicate (nat (w * h)) 0, qx = [], qy = []\<rparr> x y"
    if "in_image w h x y" for x y
    using that by (simp add: cleared_def)
  show ?thesis
    unfolding fill_inv_def using nv nc by (auto simp: stack_def)
qed

lemma seed_x_preserves:
  assumes inv: "fill_inv w h P rgba0 {} st" and x: "0 \<le> x" "x < w" and h: "0 < h"
  shows "\<exists>st'. seed_x w h st x = Inr st' \<and> fill_inv w h P rgba0 {} st' \<and>
           vis w st' x 0 \<and> vis w st' x (h - 1) \<and>
           (\<forall>x' y'. in_image w h x' y' \<and> vis w st x' y' \<longrightarrow> vis w st' x' y')"
proof -
  have p1: "in_image w h x 0" "candidate w h P x 0"
    using x h by (simp_all add: in_image_def candidate_def on_edge_def)
  have p2: "in_image w h x (h - 1)" "candidate w h P x (h - 1)"
    using x h by (simp_all add: in_image_def candidate_def on_edge_def)
  from push_preserves[OF inv p1]
  obtain st1 where s1: "push w st x 0 = Inr st1" and i1: "fill_inv w h P rgba0 {} st1"
    and v1: "vis w st1 x 0"
    and m1: "\<forall>x' y'. in_image w h x' y' \<and> vis w st x' y' \<longrightarrow> vis w st1 x' y'" by blast
  from push_preserves[OF i1 p2]
  obtain st2 where s2: "push w st1 x (h - 1) = Inr st2" and i2: "fill_inv w h P rgba0 {} st2"
    and v2: "vis w st2 x (h - 1)"
    and m2: "\<forall>x' y'. in_image w h x' y' \<and> vis w st1 x' y' \<longrightarrow> vis w st2 x' y'" by blast
  have "seed_x w h st x = Inr st2" using s1 s2 by (simp add: seed_x_def)
  moreover have "vis w st2 x 0" using v1 m2 p1(1) by blast
  ultimately show ?thesis using i2 v2 m1 m2 by blast
qed

lemma seed_y_preserves:
  assumes inv: "fill_inv w h P rgba0 {} st" and y: "0 \<le> y" "y < h" and w: "0 < w"
  shows "\<exists>st'. seed_y w h st y = Inr st' \<and> fill_inv w h P rgba0 {} st' \<and>
           vis w st' 0 y \<and> vis w st' (w - 1) y \<and>
           (\<forall>x' y'. in_image w h x' y' \<and> vis w st x' y' \<longrightarrow> vis w st' x' y')"
proof -
  have p1: "in_image w h 0 y" "candidate w h P 0 y"
    using y w by (simp_all add: in_image_def candidate_def on_edge_def)
  have p2: "in_image w h (w - 1) y" "candidate w h P (w - 1) y"
    using y w by (simp_all add: in_image_def candidate_def on_edge_def)
  from push_preserves[OF inv p1]
  obtain st1 where s1: "push w st 0 y = Inr st1" and i1: "fill_inv w h P rgba0 {} st1"
    and v1: "vis w st1 0 y"
    and m1: "\<forall>x' y'. in_image w h x' y' \<and> vis w st x' y' \<longrightarrow> vis w st1 x' y'" by blast
  from push_preserves[OF i1 p2]
  obtain st2 where s2: "push w st1 (w - 1) y = Inr st2" and i2: "fill_inv w h P rgba0 {} st2"
    and v2: "vis w st2 (w - 1) y"
    and m2: "\<forall>x' y'. in_image w h x' y' \<and> vis w st1 x' y' \<longrightarrow> vis w st2 x' y'" by blast
  have "seed_y w h st y = Inr st2" using s1 s2 by (simp add: seed_y_def)
  moreover have "vis w st2 0 y" using v1 m2 p1(1) by blast
  ultimately show ?thesis using i2 v2 m1 m2 by blast
qed

lemma seeding_preserves:
  assumes inv: "fill_inv w h P rgba0 {} st" and w: "0 < w" and h: "0 < h"
  shows "\<exists>st1 st2. for_loop (py_range w) (seed_x w h) st = Inr st1 \<and>
           for_loop (py_range h) (seed_y w h) st1 = Inr st2 \<and>
           fill_inv w h P rgba0 {} st2 \<and>
           (\<forall>x y. in_image w h x y \<and> on_edge w h x y \<longrightarrow> vis w st2 x y)"
proof -
  define I1 where "I1 = (\<lambda>x s. fill_inv w h P rgba0 {} s \<and>
      (\<forall>x'. 0 \<le> x' \<and> x' < x \<longrightarrow> vis w s x' 0 \<and> vis w s x' (h - 1)))"
  have "\<exists>s'. for_loop (py_range w) (seed_x w h) st = Inr s' \<and> I1 w s'"
  proof (rule for_loop_range)
    show "0 \<le> w" using w by simp
    show "I1 0 st" using inv by (auto simp: I1_def)
  next
    fix k s assume k: "0 \<le> k" "k < w" and i: "I1 k s"
    from i have fi: "fill_inv w h P rgba0 {} s"
      and old: "\<forall>x'. 0 \<le> x' \<and> x' < k \<longrightarrow> vis w s x' 0 \<and> vis w s x' (h - 1)"
      by (simp_all add: I1_def)
    from seed_x_preserves[OF fi k h]
    obtain s' where r: "seed_x w h s k = Inr s'" and fi': "fill_inv w h P rgba0 {} s'"
      and v: "vis w s' k 0" "vis w s' k (h - 1)"
      and m: "\<forall>x' y'. in_image w h x' y' \<and> vis w s x' y' \<longrightarrow> vis w s' x' y'" by blast
    have "vis w s' x' 0 \<and> vis w s' x' (h - 1)" if "0 \<le> x'" "x' < k + 1" for x'
    proof (cases "x' = k")
      case True
      with v show ?thesis by simp
    next
      case False
      with that have lt: "x' < k" by simp
      with that k h have "in_image w h x' 0" "in_image w h x' (h - 1)" by (simp_all add: in_image_def)
      with old lt that(1) m show ?thesis by blast
    qed
    with r fi' show "\<exists>s'. seed_x w h s k = Inr s' \<and> I1 (k + 1) s'"
      by (auto simp: I1_def)
  qed
  then obtain st1 where l1: "for_loop (py_range w) (seed_x w h) st = Inr st1" and i1: "I1 w st1"
    by blast
  define I2 where "I2 = (\<lambda>y s. fill_inv w h P rgba0 {} s \<and>
      (\<forall>x'. 0 \<le> x' \<and> x' < w \<longrightarrow> vis w s x' 0 \<and> vis w s x' (h - 1)) \<and>
      (\<forall>y'. 0 \<le> y' \<and> y' < y \<longrightarrow> vis w s 0 y' \<and> vis w s (w - 1) y'))"
  have "\<exists>s'. for_loop (py_range h) (seed_y w h) st1 = Inr s' \<and> I2 h s'"
  proof (rule for_loop_range)
    show "0 \<le> h" using h by simp
    show "I2 0 st1" using i1 by (auto simp: I1_def I2_def)
  next
    fix k s assume k: "0 \<le> k" "k < h" and i: "I2 k s"
    from i have fi: "fill_inv w h P rgba0 {} s"
      and rows: "\<forall>x'. 0 \<le> x' \<and> x' < w \<longrightarrow> vis w s x' 0 \<and> vis w s x' (h - 1)"
      and old: "\<forall>y'. 0 \<le> y' \<and> y' < k \<longrightarrow> vis w s 0 y' \<and> vis w s (w - 1) y'"
      by (simp_all add: I2_def)
    from seed_y_preserves[OF fi k w]
    obtain s' where r: "seed_y w h s k = Inr s'" and fi': "fill_inv w h P rgba0 {} s'"
      and v: "vis w s' 0 k" "vis w s' (w - 1) k"
      and m: "\<forall>x' y'. in_image w h x' y' \<and> vis w s x' y' \<longrightarrow> vis w s' x' y'" by blast
    have rows': "vis w s' x' 0 \<and> vis w s' x' (h - 1)" if "0 \<le> x'" "x' < w" for x'
    proof -
      from that h have "in_image w h x' 0" "in_image w h x' (h - 1)" by (simp_all add: in_image_def)
      with rows that m show ?thesis by blast
    qed
    have cols': "vis w s' 0 y' \<and> vis w s' (w - 1) y'" if "0 \<le> y'" "y' < k + 1" for y'
    proof (cases "y' = k")
      case True
      with v show ?thesis by simp
    next
      case False
      with that have lt: "y' < k" by simp
      with that k w have "in_image w h 0 y'" "in_image w h (w - 1) y'" by (simp_all add: in_image_def)
      with old lt that(1) m show ?thesis by blast
    qed
    from r fi' rows' cols' show "\<exists>s'. seed_y w h s k = Inr s' \<and> I2 (k + 1) s'"
      by (auto simp: I2_def)
  qed
  then obtain st2 where l2: "for_loop (py_range h) (seed_y w h) st1 = Inr st2" and i2: "I2 h st2"
    by blast
  have "vis w st2 x y" if "in_image w h x y" "on_edge w h x y" for x y
    using that i2 unfolding I2_def in_image_def on_edge_def by auto
  with l1 l2 i2 show ?thesis unfolding I2_def by blast
qed

lemma region_imp_P: "region w h P x y \<Longrightarrow> P x y"
  by (erule region.cases) simp_all

lemma region_in_image: "region w h P x y \<Longrightarrow> in_image w h x y"
  by (erule region.cases) simp_all

lemma cleared_iff_region:
  assumes inv: "fill_inv w h P rgba0 {} st" and e: "qx st = []"
    and edges: "\<forall>x y. in_image w h x y \<and> on_edge w h x y \<longrightarrow> vis w st x y"
    and p: "in_image w h x y"
  shows "cleared w P st x y \<longleftrightarrow> region w h P x y"
proof
  assume c: "cleared w P st x y"
  then have "vis w st x y" "P x y" by (simp_all add: cleared_def)
  with inv p have "candidate w h P x y" unfolding fill_inv_def by blast
  then show "region w h P x y"
    unfolding candidate_def using p \<open>P x y\<close> by (auto intro: region.edge region.step)
next
  have s: "stack st = []" using e by (simp add: stack_def)
  assume "region w h P x y"
  then show "cleared w P st x y"
  proof (induction rule: region.induct)
    case (edge x y)
    with edges show ?case by (simp add: cleared_def s)
  next
    case (step x y x' y')
    have "in_image w h x y" using step.hyps(1) by (rule region_in_image)
    with inv step have "vis w st x' y'" unfolding fill_inv_def by blast
    with step show ?case by (simp add: cleared_def s)
  qed
qed

lemma floodfill_result:
  fixes img :: PngImage and tol K :: int
  assumes len: "int (length (rgba img)) = width img * height img * 4"
    and w: "0 < width img" and h: "0 < height img"
  defines "seeds \<equiv> map fst (most_common (Counter (border_scan img 16)) K)"
  defines "P \<equiv> \<lambda>x y. is_bg seeds (tol * tol) (pixel_rgb img x y)"
  shows "\<exists>r. background_to_alpha_floodfill img tol K = Inr r \<and>
           (r = Same_Object \<longleftrightarrow> seeds = []) \<and>
           width (returned_image img r) = width img \<and>
           height (returned_image img r) = height img \<and>
           length (rgba (returned_image img r)) = length (rgba img) \<and>
           (\<forall>x y. in_image (width img) (height img) x y \<longrightarrow>
              rgba (returned_image img r) ! nat ((y * width img + x) * 4) =
                rgba img ! nat ((y * width img + x) * 4) \<and>
              rgba (returned_image img r) ! nat ((y * width img + x) * 4 + 1) =
                rgba img ! nat ((y * width img + x) * 4 + 1) \<and>
              rgba (returned_image img r) ! nat ((y * width img + x) * 4 + 2) =
                rgba img ! nat ((y * width img + x) * 4 + 2) \<and>
              rgba (returned_image img r) ! nat ((y * width img + x) * 4 + 3) =
                (if region (width img) (height img) P x y then 0
                 else rgba img ! nat ((y * width img + x) * 4 + 3)))"
proof -
  have scan: "sample_border_colors img 16 = Inr (border_scan img 16)"
    by (rule sample_border_colors_scan[OF len w h])
  show ?thesis
  proof (cases "seeds = []")
    case True
    have run: "background_to_alpha_floodfill img tol K = Inr Same_Object"
      unfolding background_to_alpha_floodfill_def Let_def scan
      using True by (simp add: seeds_def)
    have "\<not> region (width img) (height img) P x y" for x y
      using region_imp_P[of "width img" "height img" P x y] True
      by (auto simp: P_def is_bg_def)
    with run True show ?thesis by (simp add: returned_image_def)
  next
    case False
    define st0 where "st0 = \<lparr>buf = rgba img, visited = replicate (nat (width img * height img)) 0,
        qx = [], qy = []\<rparr>"
    have wh: "0 \<le> width img * height img" using w h by simp
    have inv0: "fill_inv (width img) (height img) P (rgba img) {} st0"
      unfolding st0_def by (rule fill_inv_init[OF wh])
    from seeding_preserves[OF inv0 w h]
    obtain st1 st2 where l1: "for_loop (py_range (width img)) (seed_x (width img) (height img)) st0 = Inr st1"
      and l2: "for_loop (py_range (height img)) (seed_y (width img) (height img)) st1 = Inr st2"
      and inv2: "fill_inv (width img) (height img) P (rgba img) {} st2"
      and e2: "\<forall>x y. in_image (width img) (height img) x y \<and> on_edge (width img) (height img) x y
                 \<longrightarrow> vis (width img) st2 x y"
      by blast
    have Pdef: "\<And>x y. in_image (width img) (height img) x y \<Longrightarrow>
       P x y = is_bg seeds (tol * tol)
         (uint (rgba img ! nat ((y * width img + x) * 4)),
          uint (rgba img ! nat ((y * width img + x) * 4 + 1)),
          uint (rgba img ! nat ((y * width img + x) * 4 + 2)))"
      by (simp add: P_def pixel_rgb_def)
    from fill_loop_preserves[OF len Pdef inv2]
    obtain st3 where l3: "fill_loop (width img) (height img) seeds (tol * tol) st2 = Inr st3"
      and inv3: "fill_inv (width img) (height img) P (rgba img) {} st3"
      and e3: "qx st3 = []"
      and m3: "\<forall>x' y'. in_image (width img) (height img) x' y' \<and> vis (width img) st2 x' y'
                 \<longrightarrow> vis (width img) st3 x' y'"
      by blast
    have edges3: "\<forall>x y. in_image (width img) (height img) x y \<and> on_edge (width img) (height img) x y
                 \<longrightarrow> vis (width img) st3 x y"
      using e2 m3 by blast
    define out where "out = \<lparr>width = width img, height = height img, rgba = buf st3\<rparr>"
    have run: "background_to_alpha_floodfill img tol K = Inr (New_Object out)"
      unfolding background_to_alpha_floodfill_def Let_def scan
      using False wh l1 l2 l3
      by (simp add: seeds_def[symmetric] bytearray_def st0_def[symmetric] out_def)
    have bytes: "rgba out ! nat ((y * width img + x) * 4) = rgba img ! nat ((y * width img + x) * 4) \<and>
        rgba out ! nat ((y * width img + x) * 4 + 1) = rgba img ! nat ((y * width img + x) * 4 + 1) \<and>
        rgba out ! nat ((y * width img + x) * 4 + 2) = rgba img ! nat ((y * width img + x) * 4 + 2) \<and>
        rgba out ! nat ((y * width img + x) * 4 + 3) =
          (if region (width img) (height img) P x y then 0
           else rgba img ! nat ((y * width img + x) * 4 + 3))"
      if p: "in_image (width img) (height img) x y" for x y
    proof -
      from inv3 p have
        "buf st3 ! nat ((y * width img + x) * 4) = rgba img ! nat ((y * width img + x) * 4) \<and>
         buf st3 ! nat ((y * width img + x) * 4 + 1) = rgba img ! nat ((y * width img + x) * 4 + 1) \<and>
         buf st3 ! nat ((y * width img + x) * 4 + 2) = rgba img ! nat ((y * width img + x) * 4 + 2) \<and>
         buf st3 ! nat ((y * width img + x) * 4 + 3) =
           (if cleared (width img) P st3 x y then 0
            else rgba img ! nat ((y * width img + x) * 4 + 3))"
        unfolding fill_inv_def by blast
      then show ?thesis
        unfolding cleared_iff_region[OF inv3 e3 edges3 p] by (simp add: out_def)
    qed
    have "length (rgba out) = length (rgba img)"
      using inv3 by (simp add: fill_inv_def out_def)
    with run False bytes show ?thesis
      by (simp add: returned_image_def out_def)
  qed
qed

section \<open>Claims about the background removal\<close>

lemma ring5_run: "background_to_alpha_floodfill ring5 28 2 = Inr (New_Object ring5_cleared)"
  unfolding ring5_def ring5_cleared_def by code_simp

text \<open>
  Claim C3. On an image with positive width and height whose buffer has length
  \<open>width * height * 4\<close>, \<open>background_to_alpha_floodfill\<close> returns an image in which the
  alpha of a pixel is 0 when the pixel is in the border-connected background region and is
  the alpha of the input otherwise, and the three colour bytes of every pixel are those of
  the input; the seeds of the predicate are those selected from the border scan that
  \<open>_sample_border_colors\<close> returns.
\<close>

theorem floodfill_clears_exactly_region:
  assumes "int (length (rgba img)) = width img * height img * 4"
    and "0 < width img" and "0 < height img"
  shows "sample_border_colors img 16 = Inr (border_scan img 16) \<and>
     (\<exists>r. background_to_alpha_floodfill img tolerance max_seed_colors = Inr r \<and>
        length (rgba (returned_image img r)) = length (rgba img) \<and>
        (\<forall>x y. in_image (width img) (height img) x y \<longrightarrow>
           rgba (returned_image img r) ! nat ((y * width img + x) * 4) =
             rgba img ! nat ((y * width img + x) * 4) \<and>
           rgba (returned_image img r) ! nat ((y * width img + x) * 4 + 1) =
             rgba img ! nat ((y * width img + x) * 4 + 1) \<and>
           rgba (returned_image img r) ! nat ((y * width img + x) * 4 + 2) =
             rgba img ! nat ((y * width img + x) * 4 + 2) \<and>
           rgba (returned_image img r) ! nat ((y * width img + x) * 4 + 3) =
             (if region (width img) (height img) (background_pixel img tolerance max_seed_colors) x y
              then 0 else rgba img ! nat ((y * width img + x) * 4 + 3))))"
proof -
  have "background_pixel img tolerance max_seed_colors =
      (\<lambda>x y. is_bg (map fst (most_common (Counter (border_scan img 16)) max_seed_colors))
         (tolerance * tolerance) (pixel_rgb img x y))"
    by (intro ext) (simp add: background_pixel_def)
  with floodfill_result[OF assms, of tolerance max_seed_colors]
    sample_border_colors_scan[OF assms, of 16]
  show ?thesis by auto
qed

theorem floodfill_clears_exactly_region_witness:
  "background_to_alpha_floodfill ring5 28 2 = Inr (New_Object ring5_cleared) \<and>
   region 5 5 (background_pixel ring5 28 2) 0 0 \<and>
   \<not> region 5 5 (background_pixel ring5 28 2) 1 1 \<and>
   \<not> region 5 5 (background_pixel ring5 28 2) 2 2 \<and>
   background_pixel ring5 28 2 2 2"
proof -
  have len: "int (length (rgba ring5)) = width ring5 * height ring5 * 4"
    and w: "0 < width ring5" and h: "0 < height ring5"
    by (simp_all add: ring5_def)
  from floodfill_clears_exactly_region[OF len w h, of 28 2] ring5_run
  have a: "\<forall>x y. in_image 5 5 x y \<longrightarrow>
      rgba ring5_cleared ! nat ((y * 5 + x) * 4 + 3) =
        (if region 5 5 (background_pixel ring5 28 2) x y then 0
         else rgba ring5 ! nat ((y * 5 + x) * 4 + 3))"
    by (auto simp: returned_image_def ring5_def)
  have "in_image 5 5 0 0" "in_image 5 5 1 1" "in_image 5 5 2 2" by (simp_all add: in_image_def)
  with a have
    "rgba ring5_cleared ! nat ((0 * 5 + 0) * 4 + 3) =
        (if region 5 5 (background_pixel ring5 28 2) 0 0 then 0
         else rgba ring5 ! nat ((0 * 5 + 0) * 4 + 3))"
    "rgba ring5_cleared ! nat ((1 * 5 + 1) * 4 + 3) =
        (if region 5 5 (background_pixel ring5 28 2) 1 1 then 0
         else rgba ring5 ! nat ((1 * 5 + 1) * 4 + 3))"
    "rgba ring5_cleared ! nat ((2 * 5 + 2) * 4 + 3) =
        (if region 5 5 (background_pixel ring5 28 2) 2 2 then 0
         else rgba ring5 ! nat ((2 * 5 + 2) * 4 + 3))"
    by blast+
  then have "region 5 5 (background_pixel ring5 28 2) 0 0"
    "\<not> region 5 5 (background_pixel ring5 28 2) 1 1"
    "\<not> region 5 5 (background_pixel ring5 28 2) 2 2"
    by (simp_all add: ring5_def ring5_cleared_def split: if_splits)
  moreover have "background_pixel ring5 28 2 2 2"
    unfolding background_pixel_def ring5_def by code_simp
  ultimately show ?thesis using ring5_run by simp
qed

lemma byte_index_pixel:
  assumes n: "int n = w * h * 4" and w: "0 < w" and i: "i < n"
  obtains x y k where "in_image w h x y" "0 \<le> k" "k \<le> 3" "int i = (y * w + x) * 4 + k"
    "k = int (i mod 4)"
proof -
  define q where "q = int i div 4"
  define k where "k = int i mod 4"
  define x where "x = q mod w"
  define y where "y = q div w"
  have ik: "int i = q * 4 + k" by (simp add: q_def k_def)
  have k: "0 \<le> k" "k \<le> 3" by (simp_all add: k_def)
  have q0: "0 \<le> q" by (simp add: q_def)
  have qxy: "q = y * w + x" by (simp add: x_def y_def)
  have x: "0 \<le> x" "x < w" using w by (simp_all add: x_def)
  have y0: "0 \<le> y" using w q0 by (simp add: y_def pos_imp_zdiv_nonneg_iff)
  define m where "m = w * h"
  have "q * 4 + k < m * 4" using i n ik by (simp add: m_def)
  with k have qm: "q < m" by presburger
  have "y < h"
  proof (rule ccontr)
    assume "\<not> y < h"
    then have "h \<le> y" by simp
    then have "h * w \<le> y * w" using w by (intro mult_right_mono) simp_all
    with x qxy have "h * w \<le> q" by linarith
    moreover have "m = h * w" by (simp add: m_def mult.commute)
    ultimately show False using qm by linarith
  qed
  with x y0 have "in_image w h x y" by (simp add: in_image_def)
  moreover have "int i = (y * w + x) * 4 + k" using ik qxy by simp
  moreover have "k = int (i mod 4)" by (simp add: k_def zmod_int)
  ultimately show ?thesis using k that by blast
qed

lemma border_scan_nonempty:
  assumes "0 < width img"
  shows "border_scan img 16 \<noteq> []"
proof -
  have "0 \<in> set (py_range_step (width img) 16)"
    using assms by (simp add: py_range_step_def)
  then have "py_range_step (width img) 16 \<noteq> []" by auto
  then show ?thesis
    by (cases "py_range_step (width img) 16") (simp_all add: border_scan_def)
qed

lemma no_seed_iff:
  assumes "0 < width img"
  shows "map fst (most_common (Counter (border_scan img 16)) K) = [] \<longleftrightarrow> K \<le> 0"
proof -
  have "0 < card (set (border_scan img 16))"
    using border_scan_nonempty[OF assms] by (simp add: card_gt_0_iff)
  moreover have "length (map fst (most_common (Counter (border_scan img 16)) K)) =
      min (nat K) (card (set (border_scan img 16)))"
    by (rule seeds_ranked(3))
  ultimately have "length (map fst (most_common (Counter (border_scan img 16)) K)) = 0 \<longleftrightarrow> K \<le> 0"
    by (simp only: min_def split: if_splits) auto
  then show ?thesis by (simp only: length_0_conv)
qed

text \<open>
  Claim C5, as amended. On an image with positive width and height whose buffer has length
  \<open>width * height * 4\<close>, the call returns; the result has the dimensions and the buffer
  length of the input, every byte that is not an alpha byte is the byte of the input, and
  the alpha of a pixel is that of the input, or is 0 at a pixel that satisfies the
  background predicate. The returned object is the input object itself exactly when
  \<open>max_seed_colors \<le> 0\<close> (no seed is selected), and a new image otherwise.
\<close>

theorem floodfill_changes_only_alpha:
  assumes "int (length (rgba img)) = width img * height img * 4"
    and "0 < width img" and "0 < height img"
  shows "\<exists>r. background_to_alpha_floodfill img tolerance max_seed_colors = Inr r \<and>
     (r = Same_Object \<longleftrightarrow> max_seed_colors \<le> 0) \<and>
     width (returned_image img r) = width img \<and>
     height (returned_image img r) = height img \<and>
     length (rgba (returned_image img r)) = length (rgba img) \<and>
     (\<forall>i. i < length (rgba img) \<and> i mod 4 \<noteq> 3 \<longrightarrow>
        rgba (returned_image img r) ! i = rgba img ! i) \<and>
     (\<forall>x y. in_image (width img) (height img) x y \<longrightarrow>
        rgba (returned_image img r) ! nat ((y * width img + x) * 4 + 3) =
          rgba img ! nat ((y * width img + x) * 4 + 3) \<or>
        (rgba (returned_image img r) ! nat ((y * width img + x) * 4 + 3) = 0 \<and>
         background_pixel img tolerance max_seed_colors x y))"
proof -
  define P where "P = (\<lambda>x y. is_bg (map fst (most_common (Counter (border_scan img 16)) max_seed_colors))
         (tolerance * tolerance) (pixel_rgb img x y))"
  have PP: "P = background_pixel img tolerance max_seed_colors"
    by (intro ext) (simp add: background_pixel_def P_def)
  from floodfill_result[OF assms, of tolerance max_seed_colors]
  obtain r where run: "background_to_alpha_floodfill img tolerance max_seed_colors = Inr r"
    and same: "r = Same_Object \<longleftrightarrow> map fst (most_common (Counter (border_scan img 16)) max_seed_colors) = []"
    and dims: "width (returned_image img r) = width img" "height (returned_image img r) = height img"
      "length (rgba (returned_image img r)) = length (rgba img)"
    and bytes: "\<forall>x y. in_image (width img) (height img) x y \<longrightarrow>
              rgba (returned_image img r) ! nat ((y * width img + x) * 4) =
                rgba img ! nat ((y * width img + x) * 4) \<and>
              rgba (returned_image img r) ! nat ((y * width img + x) * 4 + 1) =
                rgba img ! nat ((y * width img + x) * 4 + 1) \<and>
              rgba (returned_image img r) ! nat ((y * width img + x) * 4 + 2) =
                rgba img ! nat ((y * width img + x) * 4 + 2) \<and>
              rgba (returned_image img r) ! nat ((y * width img + x) * 4 + 3) =
                (if region (width img) (height img) P x y then 0
                 else rgba img ! nat ((y * width img + x) * 4 + 3))"
    unfolding P_def by blast
  have colour: "rgba (returned_image img r) ! i = rgba img ! i"
    if "i < length (rgba img)" "i mod 4 \<noteq> 3" for i
  proof -
    from byte_index_pixel[OF assms(1,2) that(1)]
    obtain x y k where p: "in_image (width img) (height img) x y" and k: "0 \<le> k" "k \<le> 3"
      and i: "int i = (y * width img + x) * 4 + k" and km: "k = int (i mod 4)" by blast
    from that(2) km k have "k = 0 \<or> k = 1 \<or> k = 2" by auto
    moreover have "i = nat ((y * width img + x) * 4 + k)" using i by simp
    ultimately show ?thesis using bytes p by auto
  qed
  have alpha: "rgba (returned_image img r) ! nat ((y * width img + x) * 4 + 3) =
          rgba img ! nat ((y * width img + x) * 4 + 3) \<or>
        (rgba (returned_image img r) ! nat ((y * width img + x) * 4 + 3) = 0 \<and>
         background_pixel img tolerance max_seed_colors x y)"
    if "in_image (width img) (height img) x y" for x y
    using bytes that region_imp_P[of "width img" "height img" P x y] unfolding PP
    by (cases "region (width img) (height img) (background_pixel img tolerance max_seed_colors) x y") auto
  from run same dims colour alpha show ?thesis
    unfolding no_seed_iff[OF assms(2)] by blast
qed

theorem floodfill_changes_only_alpha_witness:
  "background_to_alpha_floodfill ring5 28 2 = Inr (New_Object ring5_cleared) \<and>
   (\<exists>r. background_to_alpha_floodfill ring5 28 0 = Inr r \<and> r = Same_Object)"
proof -
  have len: "int (length (rgba ring5)) = width ring5 * height ring5 * 4"
    and w: "0 < width ring5" and h: "0 < height ring5"
    by (simp_all add: ring5_def)
  from floodfill_changes_only_alpha[OF len w h, of 28 0]
  have "\<exists>r. background_to_alpha_floodfill ring5 28 0 = Inr r \<and> r = Same_Object"
    by auto
  with ring5_run show ?thesis by simp
qed

text \<open>
  Claim C5 as stated fails: with \<open>max_seed_colors = 0\<close> no seed is selected and the
  function returns the object it was given, not a new image.
\<close>

theorem floodfill_returns_input_object:
  "background_to_alpha_floodfill \<lparr>width = 1, height = 1, rgba = [1, 2, 3, 255]\<rparr> 28 0 = Inr Same_Object"
  by code_simp

text \<open>
  Claim C6. A colour is background exactly when its squared distance (the sum of the
  squared differences of the three channels) to some seed is at most the squared
  tolerance; the bound is inclusive.
\<close>

theorem is_bg_iff:
  "is_bg seeds (tolerance * tolerance) (r, g, b) \<longleftrightarrow>
     (\<exists>(sr, sg, sb) \<in> set seeds. (r - sr)\<^sup>2 + (g - sg)\<^sup>2 + (b - sb)\<^sup>2 \<le> tolerance\<^sup>2)"
proof -
  have "color_dist_sq (r, g, b) s \<le> tolerance * tolerance \<longleftrightarrow>
        (case s of (sr, sg, sb) \<Rightarrow> (r - sr)\<^sup>2 + (g - sg)\<^sup>2 + (b - sb)\<^sup>2 \<le> tolerance\<^sup>2)" for s
    by (cases s) (simp add: color_dist_sq_def power2_eq_square)
  then show ?thesis by (simp add: is_bg_def list_ex_iff)
qed

theorem is_bg_iff_witness:
  "is_bg [(0, 0, 0)] (28 * 28) (28, 0, 0) \<and> \<not> is_bg [(0, 0, 0)] (28 * 28) (28, 1, 0)
   \<and> is_bg [(200, 200, 200), (24, 12, 8)] (28 * 28) (0, 0, 0)
   \<and> \<not> is_bg [] (28 * 28) (0, 0, 0)"
  using is_bg_iff[of "[(0, 0, 0)]" 28 28 0 0] is_bg_iff[of "[(0, 0, 0)]" 28 28 1 0]
    is_bg_iff[of "[(200, 200, 200), (24, 12, 8)]" 28 0 0 0]
    is_bg_iff[of "[]" 28 0 0 0]
  by simp

text \<open>
  Claim C7. On an image with positive width and height whose buffer has length
  \<open>width * height * 4\<close>, \<open>_sample_border_colors\<close> with step 16 returns the colours at
  every 16th position of the four edges, in the order of \<open>border_scan\<close>; and the seeds
  \<open>Counter(border_colors).most_common(K)\<close> are \<open>min K n\<close> distinct colours of the scan
  (\<open>n\<close> the number of distinct colours), listed so that each ranks before the next (more
  frequent, or as frequent and first seen earlier), and each ranks before every colour of
  the scan that was not selected.
\<close>

theorem seed_selection:
  assumes "int (length (rgba img)) = width img * height img * 4"
    and "0 < width img" and "0 < height img"
  shows "sample_border_colors img 16 = Inr (border_scan img 16) \<and>
     (let colors = border_scan img 16; seeds = map fst (most_common (Counter colors) K) in
        distinct seeds \<and> set seeds \<subseteq> set colors \<and>
        length seeds = min (nat K) (card (set colors)) \<and>
        sorted_wrt (ranks_before colors) seeds \<and>
        (\<forall>c \<in> set colors - set seeds. \<forall>s \<in> set seeds. ranks_before colors s c))"
  using sample_border_colors_scan[OF assms, of 16] seeds_ranked[of "border_scan img 16" K]
  by (simp add: Let_def)

theorem seed_selection_witness:
  "sample_border_colors strip3 16 = Inr [(9, 9, 9), (9, 9, 9), (9, 9, 9), (1, 2, 3)] \<and>
   map fst (most_common (Counter ([(9, 9, 9), (9, 9, 9), (9, 9, 9), (1, 2, 3)] :: color list)) 2)
     = [(9, 9, 9), (1, 2, 3)] \<and>
   map fst (most_common (Counter ([(1, 2, 3), (9, 9, 9), (9, 9, 9), (1, 2, 3), (5, 5, 5)] :: color list)) 2)
     = [(1, 2, 3), (9, 9, 9)]"
proof -
  have len: "int (length (rgba strip3)) = width strip3 * height strip3 * 4"
    and w: "0 < width strip3" and h: "0 < height strip3"
    by (simp_all add: strip3_def)
  have "sample_border_colors strip3 16 = Inr (border_scan strip3 16)"
    using seed_selection[OF len w h, of 2] by simp
  moreover have "border_scan strip3 16 = [(9, 9, 9), (9, 9, 9), (9, 9, 9), (1, 2, 3)]"
    unfolding strip3_def by code_simp
  moreover have "map fst (most_common (Counter ([(9, 9, 9), (9, 9, 9), (9, 9, 9), (1, 2, 3)] :: color list)) 2)
     = [(9, 9, 9), (1, 2, 3)]"
    by code_simp
  moreover have "map fst (most_common (Counter ([(1, 2, 3), (9, 9, 9), (9, 9, 9), (1, 2, 3), (5, 5, 5)] :: color list)) 2)
     = [(1, 2, 3), (9, 9, 9)]"
    by code_simp
  ultimately show ?thesis by simp
qed

text \<open>
  Claim C8 fails on the code: an image of zero area with one dimension positive makes
  \<open>_sample_border_colors\<close> read the empty buffer, and the call raises \<open>IndexError\<close>. Only
  the image with both dimensions 0 yields no seed and is returned as it is.
\<close>

theorem floodfill_zero_area:
  "background_to_alpha_floodfill \<lparr>width = 0, height = 1, rgba = []\<rparr> 28 2 = Inl IndexError \<and>
   background_to_alpha_floodfill \<lparr>width = 1, height = 0, rgba = []\<rparr> 28 2 = Inl IndexError \<and>
   background_to_alpha_floodfill \<lparr>width = 0, height = 0, rgba = []\<rparr> 28 2 = Inr Same_Object"
  by code_simp

section \<open>What the decoder and the flood fill return has the length its dimensions ask for\<close>

lemma for_loop_invariant:
  assumes "for_loop xs body s = Inr s'" and "I s"
    and "\<And>i s s'. i \<in> set xs \<Longrightarrow> I s \<Longrightarrow> body s i = Inr s' \<Longrightarrow> I s'"
  shows "I s'"
  using assms
proof (induction xs arbitrary: s)
  case Nil
  then show ?case by simp
next
  case (Cons i xs)
  from Cons.prems(1) obtain s1 where s1: "body s i = Inr s1" "for_loop xs body s1 = Inr s'"
    by (auto split: sum.splits)
  have "I s1" using Cons.prems(3)[of i s s1] Cons.prems(2) s1(1) by simp
  show ?case
  proof (rule Cons.IH[OF s1(2) \<open>I s1\<close>])
    fix j t t' assume "j \<in> set xs" "I t" "body t j = Inr t'"
    then show "I t'" using Cons.prems(3)[of j t t'] by simp
  qed
qed

lemma py_set_length: "py_set xs i v = Inr ys \<Longrightarrow> length ys = length xs"
  by (auto simp: py_set_def Let_def split: if_splits)

lemma unfilter_byte_length:
  "unfilter_byte src filt rb bpp d y out x = Inr out' \<Longrightarrow> length out' = length out"
  unfolding unfilter_byte_def Let_def
  by (auto split: sum.splits if_splits dest: py_set_length)

lemma unfilter_row_length:
  assumes run: "unfilter_row raw rb (1 + rb) bpp out y = Inr out'"
    and y: "0 \<le> y" "y < h" and rb: "0 \<le> rb"
    and len: "h * (1 + rb) \<le> int (length raw)"
    and out: "length out = nat (h * rb)"
  shows "length out' = nat (h * rb)"
proof -
  define rs where "rs = y * (1 + rb)"
  define d where "d = y * rb"
  define N where "N = nat (h * rb)"
  have rs0: "0 \<le> rs" and rs1: "rs + 1 + rb \<le> int (length raw)"
    using row_window[OF y rb len] by (simp_all add: rs_def)
  have get: "py_get raw rs = Inr (raw ! nat rs)"
    by (rule py_get_in_range) (use rs0 rs1 rb in \<open>auto\<close>)
  define src where "src = py_slice raw (rs + 1) (rs + 1 + rb)"
  have src_len: "length src = nat rb"
    unfolding src_def using rs0 rs1 rb by (simp add: py_slice_in_range)
  have d0: "0 \<le> d" using y rb by (simp add: d_def)
  have "(y + 1) * rb \<le> h * rb" by (rule mult_right_mono) (use y rb in \<open>auto\<close>)
  then have d1: "d + rb \<le> int N"
    using d0 rb by (simp add: d_def algebra_simps N_def)
  have outN: "length out = N" using out by (simp add: N_def)
  have unfold: "unfilter_row raw rb (1 + rb) bpp out y =
      (if uint (raw ! nat rs) = 0 then Inr (py_slice_assign out d (d + rb) src)
       else for_loop (py_range rb) (unfilter_byte src (uint (raw ! nat rs)) rb bpp d y) out)"
    unfolding unfilter_row_def Let_def rs_def[symmetric] get src_def d_def by simp
  show ?thesis
  proof (cases "uint (raw ! nat rs) = 0")
    case True
    have dn: "nat d + nat rb \<le> N" "nat (d + rb) = nat d + nat rb"
      using d0 d1 rb by (simp_all add: nat_add_distrib)
    have "out' = take (nat d) out @ src @ drop (nat (d + rb)) out"
      using run True d0 d1 rb outN unfolding unfold by (simp add: py_slice_assign_in_range)
    then show ?thesis using outN src_len dn by (simp add: N_def)
  next
    case False
    with run have l: "for_loop (py_range rb) (unfilter_byte src (uint (raw ! nat rs)) rb bpp d y) out = Inr out'"
      unfolding unfold by simp
    show ?thesis
      by (rule for_loop_invariant[OF l, where I = "\<lambda>s. length s = nat (h * rb)"])
         (use out unfilter_byte_length in \<open>auto\<close>)
  qed
qed

lemma unfilter_scanlines_length:
  assumes run: "unfilter_scanlines raw w h bpp = Inr out"
    and w: "0 \<le> w" and h: "0 \<le> h" and bpp: "0 \<le> bpp"
  shows "length out = nat (h * (w * bpp))"
proof -
  define rb where "rb = w * bpp"
  have rb: "0 \<le> rb" using w bpp by (simp add: rb_def)
  from run have len: "h * (1 + rb) \<le> int (length raw)"
    and l: "for_loop (py_range h) (unfilter_row raw rb (1 + rb) bpp) (replicate (nat (h * rb)) 0) = Inr out"
    unfolding unfilter_scanlines_def Let_def rb_def[symmetric] bytearray_def
    by (auto split: if_splits)
  have "length out = nat (h * rb)"
  proof (rule for_loop_invariant[OF l, where I = "\<lambda>s. length s = nat (h * rb)"])
    show "length (replicate (nat (h * rb)) (0 :: byte)) = nat (h * rb)" by simp
  next
    fix i s s'
    assume "i \<in> set (py_range h)" "length s = nat (h * rb)"
      "unfilter_row raw rb (1 + rb) bpp s i = Inr s'"
    then show "length s' = nat (h * rb)"
      using unfilter_row_length[of raw rb bpp s i s' h] rb len by (auto simp: py_range_def)
  qed
  then show ?thesis by (simp add: rb_def)
qed

lemma expand_rgb_length:
  assumes "expand_rgb pixels w h = Inr out"
  shows "int (length out) = w * h * 4"
proof -
  from assms have n: "0 \<le> w * h * 4"
    and l: "for_loop (py_range (w * h)) (expand_pixel pixels) (replicate (nat (w * h * 4)) 0) = Inr out"
    unfolding expand_rgb_def bytearray_def by (auto split: if_splits)
  have step: "length s' = length s" if "expand_pixel pixels s i = Inr s'" for s s' i
    using that unfolding expand_pixel_def copy_byte_def
    by (auto split: sum.splits dest!: py_set_length)
  have "length out = nat (w * h * 4)"
    by (rule for_loop_invariant[OF l, where I = "\<lambda>s. length s = nat (w * h * 4)"])
       (use step in \<open>auto\<close>)
  with n show ?thesis by simp
qed

lemma read_png_well_formed:
  assumes "read_png zlib_decompress png = Inr img"
  shows "well_formed img"
proof -
  from assms obtain chunks ihdr idat_parts w h bit_depth color_type comp_method filt interlace raw pixels
    where ih: "unpack_ihdr ihdr = Inr (w, h, bit_depth, color_type, comp_method, filt, interlace)"
      and ct: "color_type = 2 \<or> color_type = 6"
      and un: "unfilter_scanlines raw w h (if color_type = 2 then 3 else 4) = Inr pixels"
      and res: "(if (if color_type = 2 then 3 else 4) = (4::int) then Inr \<lparr>width = w, height = h, rgba = pixels\<rparr>
             else case expand_rgb pixels w h of Inl e \<Rightarrow> Inl e
                  | Inr rgba_out \<Rightarrow> Inr \<lparr>width = w, height = h, rgba = rgba_out\<rparr>) = Inr img"
    unfolding read_png_def Let_def
    by (auto split: sum.splits prod.splits option.splits if_splits)
  from ih have wh: "0 \<le> w" "0 \<le> h"
    by (auto simp: unpack_ihdr_def unpack_be32_nonneg split: if_splits)
  show ?thesis
  proof (cases "color_type = 2")
    case True
    with res obtain out where "expand_rgb pixels w h = Inr out" "img = \<lparr>width = w, height = h, rgba = out\<rparr>"
      by (auto split: sum.splits)
    with expand_rgb_length[of pixels w h out] wh show ?thesis
      by (simp add: well_formed_def)
  next
    case False
    with res have img: "img = \<lparr>width = w, height = h, rgba = pixels\<rparr>" by simp
    from unfilter_scanlines_length[OF un wh] False
    have "length pixels = nat (h * (w * 4))" by simp
    with wh img show ?thesis by (simp add: well_formed_def algebra_simps)
  qed
qed

lemma push_buf: "push w st x y = Inr st' \<Longrightarrow> buf st' = buf st"
  unfolding push_def Let_def by (auto split: sum.splits if_splits)

lemma push_if_buf: "push_if c w st x y = Inr st' \<Longrightarrow> buf st' = buf st"
  unfolding push_if_def by (auto split: if_splits dest: push_buf)

lemma fill_step_buf_length:
  assumes "fill_step w h seeds tol_sq st = Inr st'"
  shows "length (buf st') = length (buf st)"
proof -
  from assms obtain x qx' y qy' where px: "py_pop (qx st) = Inr (x, qx')" and py: "py_pop (qy st) = Inr (y, qy')"
    unfolding fill_step_def by (auto split: sum.splits)
  define st0 where "st0 = st\<lparr>qx := qx', qy := qy'\<rparr>"
  have step: "fill_step w h seeds tol_sq st =
      (case get_rgb (buf st0) w x y of Inl e \<Rightarrow> Inl e | Inr rgb \<Rightarrow>
         if \<not> is_bg seeds tol_sq rgb then Inr st0
         else case py_set (buf st0) ((y * w + x) * 4 + 3) 0 of Inl e \<Rightarrow> Inl e | Inr buf' \<Rightarrow>
           (case push_if (x > 0) w (st0\<lparr>buf := buf'\<rparr>) (x - 1) y of Inl e \<Rightarrow> Inl e | Inr st1 \<Rightarrow>
            case push_if (x + 1 < w) w st1 (x + 1) y of Inl e \<Rightarrow> Inl e | Inr st2 \<Rightarrow>
            case push_if (y > 0) w st2 x (y - 1) of Inl e \<Rightarrow> Inl e | Inr st3 \<Rightarrow>
              push_if (y + 1 < h) w st3 x (y + 1)))"
    unfolding fill_step_def px py st0_def Let_def by simp
  from assms obtain rgb where rgb: "get_rgb (buf st0) w x y = Inr rgb"
    unfolding step by (auto split: sum.splits)
  show ?thesis
  proof (cases "is_bg seeds tol_sq rgb")
    case False
    with assms rgb have "st' = st0" unfolding step by simp
    then show ?thesis by (simp add: st0_def)
  next
    case True
    with assms rgb obtain buf' st1 st2 st3 where
      b: "py_set (buf st0) ((y * w + x) * 4 + 3) 0 = Inr buf'"
      and p: "push_if (x > 0) w (st0\<lparr>buf := buf'\<rparr>) (x - 1) y = Inr st1"
      "push_if (x + 1 < w) w st1 (x + 1) y = Inr st2"
      "push_if (y > 0) w st2 x (y - 1) = Inr st3"
      "push_if (y + 1 < h) w st3 x (y + 1) = Inr st'"
      unfolding step by (auto split: sum.splits)
    from p have "buf st' = buf'" by (auto dest!: push_if_buf)
    with py_set_length[OF b] show ?thesis by (simp add: st0_def)
  qed
qed

lemma fill_loop_buf_length:
  "fill_loop w h seeds tol_sq st = Inr st' \<Longrightarrow> length (buf st') = length (buf st)"
proof (induction w h seeds tol_sq st rule: fill_loop.induct)
  case (1 w h seeds tol_sq st)
  show ?case
  proof (cases "qx st = []")
    case True
    with "1.prems" show ?thesis by (simp add: fill_loop.simps)
  next
    case False
    with "1.prems" obtain st1 where s: "fill_step w h seeds tol_sq st = Inr st1"
      and l: "fill_loop w h seeds tol_sq st1 = Inr st'"
      by (auto simp: fill_loop.simps[of w h seeds tol_sq st] split: sum.splits)
    from "1.IH"[OF False s l] fill_step_buf_length[OF s] show ?thesis by simp
  qed
qed

lemma floodfill_shape:
  assumes "background_to_alpha_floodfill img tolerance max_seed_colors = Inr r"
  shows "width (returned_image img r) = width img \<and> height (returned_image img r) = height img \<and>
         length (rgba (returned_image img r)) = length (rgba img)"
proof (cases r)
  case Same_Object
  then show ?thesis by (simp add: returned_image_def)
next
  case (New_Object out)
  with assms obtain seeds vis0 st1 st2 st3 where
    l1: "for_loop (py_range (width img)) (seed_x (width img) (height img))
           \<lparr>buf = rgba img, visited = vis0, qx = [], qy = []\<rparr> = Inr st1"
    and l2: "for_loop (py_range (height img)) (seed_y (width img) (height img)) st1 = Inr st2"
    and l3: "fill_loop (width img) (height img) seeds (tolerance * tolerance) st2 = Inr st3"
    and out: "out = \<lparr>width = width img, height = height img, rgba = buf st3\<rparr>"
    unfolding background_to_alpha_floodfill_def Let_def
    by (auto split: sum.splits if_splits)
  have b1: "buf st1 = rgba img"
    by (rule for_loop_invariant[OF l1, where I = "\<lambda>s. buf s = rgba img"])
       (auto simp: seed_x_def split: sum.splits dest!: push_buf)
  have b2: "buf st2 = rgba img"
    by (rule for_loop_invariant[OF l2, where I = "\<lambda>s. buf s = rgba img"])
       (auto simp: b1 seed_y_def split: sum.splits dest!: push_buf)
  from fill_loop_buf_length[OF l3] b2 out New_Object show ?thesis
    by (simp add: returned_image_def)
qed

text \<open>
  Claim C9. An image that \<open>read_png\<close> returns has non-negative dimensions and a buffer of
  exactly \<open>width * height * 4\<close> bytes; so has the image that
  \<open>background_to_alpha_floodfill\<close> returns for an input that has; and every element of
  either buffer is a byte, a value from 0 to 255.
\<close>

theorem returned_images_well_formed:
  "(read_png zlib_decompress png = Inr decoded \<longrightarrow>
      well_formed decoded \<and> (\<forall>b \<in> set (rgba decoded). 0 \<le> uint b \<and> uint b \<le> 255)) \<and>
   (well_formed img \<and> background_to_alpha_floodfill img tolerance max_seed_colors = Inr r \<longrightarrow>
      well_formed (returned_image img r) \<and>
      (\<forall>b \<in> set (rgba (returned_image img r)). 0 \<le> uint b \<and> uint b \<le> 255))"
proof -
  have byte: "0 \<le> uint b \<and> uint b \<le> 255" for b :: byte
    using uint_bounded[of b] by simp
  have "well_formed (returned_image img r)"
    if "well_formed img" "background_to_alpha_floodfill img tolerance max_seed_colors = Inr r"
    using floodfill_shape[OF that(2)] that(1) by (simp add: well_formed_def)
  then show ?thesis using read_png_well_formed byte by blast
qed

theorem returned_images_well_formed_witness:
  "read_png Some png_red_pixel = Inr \<lparr>width = 1, height = 1, rgba = [255, 0, 0, 255]\<rparr> \<and>
   well_formed \<lparr>width = 1, height = 1, rgba = [255, 0, 0, 255]\<rparr> \<and>
   well_formed ring5 \<and>
   background_to_alpha_floodfill ring5 28 2 = Inr (New_Object ring5_cleared) \<and>
   well_formed ring5_cleared"
proof -
  have d: "read_png Some png_red_pixel = Inr \<lparr>width = 1, height = 1, rgba = [255, 0, 0, 255]\<rparr>"
    unfolding png_red_pixel_def by code_simp
  have w: "well_formed ring5" by (simp add: well_formed_def ring5_def)
  from returned_images_well_formed[of Some png_red_pixel
      "\<lparr>width = 1, height = 1, rgba = [255, 0, 0, 255]\<rparr>" ring5 28 2 "New_Object ring5_cleared"]
    d w ring5_run
  have "well_formed \<lparr>width = 1, height = 1, rgba = [255, 0, 0, 255]\<rparr>"
    "well_formed (returned_image ring5 (New_Object ring5_cleared))"
    by blast+
  with d w ring5_run show ?thesis by (simp add: returned_image_def)
qed

section \<open>Writing an image and reading it back\<close>

lemma uint_byte_of_int: "uint (word_of_int k :: byte) = k mod 256"
  by (simp add: uint_word_of_int)

lemma be32_digits:
  assumes "0 \<le> (v::int)" "v < 4294967296"
  shows "((v div 16777216 mod 256 * 256 + v div 65536 mod 256) * 256 + v div 256 mod 256) * 256
        + v mod 256 = v"
proof -
  have d2: "v div 65536 = v div 256 div 256"
    by (simp add: zdiv_zmult2_eq[symmetric])
  have d3: "v div 16777216 = v div 256 div 256 div 256"
    by (simp add: zdiv_zmult2_eq[symmetric])
  have "0 \<le> v div 16777216" "v div 16777216 < 256" using assms by simp_all
  then have m: "v div 16777216 mod 256 = v div 16777216" by simp
  show ?thesis unfolding m unfolding d2 d3 by simp
qed

lemma unpack_pack_be32:
  assumes "pack_be32 v = Inr bs"
  shows "length bs = 4 \<and> unpack_be32 bs = v \<and> 0 \<le> v \<and> v < 2 ^ 32"
proof -
  from assms have v: "0 \<le> v \<and> v < 2 ^ 32 \<and>
      bs = [word_of_int (v div 2 ^ 24), word_of_int (v div 2 ^ 16),
            word_of_int (v div 2 ^ 8), word_of_int v]"
    by (simp add: pack_be32_def split: if_splits)
  then have bs: "bs = [word_of_int (v div 2 ^ 24), word_of_int (v div 2 ^ 16),
            word_of_int (v div 2 ^ 8), word_of_int v]" by (rule conjunct2[THEN conjunct2])
  have len: "length bs = 4" by (subst bs) simp
  have "unpack_be32 bs =
      (((v div 2 ^ 24) mod 256 * 256 + (v div 2 ^ 16) mod 256) * 256 + (v div 2 ^ 8) mod 256) * 256
        + v mod 256"
    by (subst bs) (simp add: unpack_be32_def uint_byte_of_int)
  also have "\<dots> = v"
  proof -
    have p: "(2::int) ^ 24 = 16777216" "(2::int) ^ 16 = 65536" "(2::int) ^ 8 = 256" by simp_all
    show ?thesis unfolding p by (rule be32_digits) (use v in \<open>simp_all\<close>)
  qed
  finally have "unpack_be32 bs = v" .
  with len v show ?thesis by blast
qed

lemma and_mask32_bounds: "0 \<le> (k::int) AND 0xFFFFFFFF \<and> k AND 0xFFFFFFFF < 2 ^ 32"
proof -
  have "(0xFFFFFFFF::int) = mask 32" by (simp add: mask_eq_exp_minus_1)
  then have "k AND 0xFFFFFFFF = take_bit 32 k" by (simp only: take_bit_eq_mask)
  then show ?thesis by (simp add: take_bit_eq_mod)
qed

lemma chunk_shape:
  assumes "int (length data) < 2 ^ 32"
  shows "\<exists>lenb crcb. chunk crc32 ctype data = Inr (lenb @ ctype @ data @ crcb) \<and>
           length lenb = 4 \<and> length crcb = 4 \<and> unpack_be32 lenb = int (length data)"
proof -
  obtain lenb where l: "pack_be32 (int (length data)) = Inr lenb"
    using assms by (auto simp: pack_be32_def)
  obtain crcb where c: "pack_be32 (crc32 (ctype @ data) AND 0xFFFFFFFF) = Inr crcb"
    using and_mask32_bounds[of "crc32 (ctype @ data)"] by (auto simp: pack_be32_def)
  have "chunk crc32 ctype data = Inr (lenb @ ctype @ data @ crcb)"
    by (simp add: chunk_def Let_def l c)
  with unpack_pack_be32[OF l] unpack_pack_be32[OF c] show ?thesis by blast
qed

lemma read_chunk_at:
  assumes png: "png = pre @ lenb @ ctype @ data @ crcb @ rest"
    and l: "length lenb = 4" "length ctype = 4" "length crcb = 4"
    and u: "unpack_be32 lenb = int (length data)"
  shows "read_chunks_from png (int (length pre)) =
           (ctype, data) # (if ctype = IEND then []
              else read_chunks_from png (int (length (pre @ lenb @ ctype @ data @ crcb))))"
proof -
  define i where "i = int (length pre)"
  have i: "0 \<le> i" "i + 8 \<le> int (length png)"
    using l by (simp_all add: i_def png)
  have s1: "py_slice png i (i + 4) = lenb"
    using l by (subst py_slice_in_range) (simp_all add: i_def png nat_add_distrib)
  have s2: "py_slice png (i + 4) (i + 8) = ctype"
    using l by (subst py_slice_in_range) (simp_all add: i_def png nat_add_distrib)
  have s3: "py_slice png (i + 8) (i + 8 + int (length data)) = data"
    using l by (subst py_slice_in_range) (simp_all add: i_def png nat_add_distrib)
  have nxt: "i + 8 + int (length data) + 4 = int (length (pre @ lenb @ ctype @ data @ crcb))"
    using l by (simp add: i_def)
  show ?thesis
    unfolding i_def[symmetric]
    by (subst read_chunks_from.simps) (use i in \<open>simp add: s1 s2 s3 u nxt\<close>)
qed

lemma filter_none_rgba_spec:
  assumes w: "0 \<le> w" and h: "0 \<le> h" and len: "int (length rgba_in) = w * h * 4"
  shows "\<exists>raw. filter_none_rgba rgba_in w h = Inr raw \<and>
           int (length raw) = h * (1 + w * 4) \<and>
           (\<forall>y. 0 \<le> y \<and> y < h \<longrightarrow>
              raw ! nat (y * (1 + w * 4)) = 0 \<and>
              (\<forall>x. 0 \<le> x \<and> x < w * 4 \<longrightarrow>
                 raw ! nat (y * (1 + w * 4) + 1 + x) = rgba_in ! nat (y * (w * 4) + x)))"
proof -
  define rb where "rb = w * 4"
  define N where "N = nat (h * (1 + rb))"
  define J where "J = (\<lambda>y (out :: byte list). length out = N \<and>
      (\<forall>y'. 0 \<le> y' \<and> y' < y \<longrightarrow>
         out ! nat (y' * (1 + rb)) = 0 \<and>
         (\<forall>x. 0 \<le> x \<and> x < rb \<longrightarrow> out ! nat (y' * (1 + rb) + 1 + x) = rgba_in ! nat (y' * rb + x))))"
  have rb: "0 \<le> rb" using w by (simp add: rb_def)
  have hN: "int N = h * (1 + rb)" using h rb by (simp add: N_def)
  have rlen: "int (length rgba_in) = h * rb" using len by (simp add: rb_def algebra_simps)
  have "\<exists>s'. for_loop (py_range h) (filter_none_row rgba_in rb) (replicate N 0) = Inr s' \<and> J h s'"
  proof (rule for_loop_range)
    show "0 \<le> h" by (rule h)
    show "J 0 (replicate N 0)" by (auto simp: J_def)
  next
    fix y out assume y: "0 \<le> y" "y < h" and j: "J y out"
    define s where "s = y * (1 + rb)"
    define d where "d = y * rb"
    have s0: "0 \<le> s" and s1: "s + 1 + rb \<le> int N"
      using row_window[OF y rb, of "int N"] hN by (simp_all add: s_def)
    have olen: "length out = N" using j by (simp add: J_def)
    have d0: "0 \<le> d" using y rb by (simp add: d_def)
    have "(y + 1) * rb \<le> h * rb" by (rule mult_right_mono) (use y rb in \<open>auto\<close>)
    then have d1: "d + rb \<le> int (length rgba_in)"
      using rlen by (simp add: d_def algebra_simps)
    define src where "src = py_slice rgba_in d (d + rb)"
    have src_eq: "src = take (nat rb) (drop (nat d) rgba_in)"
      unfolding src_def using d0 d1 rb by (simp add: py_slice_in_range)
    have src_len: "length src = nat rb" unfolding src_eq using d0 d1 rb by simp
    have src_nth: "\<And>x. 0 \<le> x \<Longrightarrow> x < rb \<Longrightarrow> src ! nat x = rgba_in ! nat (d + x)"
      unfolding src_eq using d0 d1 by (simp add: nat_add_distrib)
    define out1 where "out1 = out[nat s := 0]"
    have set1: "py_set out s 0 = Inr out1"
      using s0 s1 rb olen by (simp add: py_set_in_range out1_def)
    define out2 where "out2 = take (nat (s + 1)) out1 @ src @ drop (nat (s + 1 + rb)) out1"
    have o1len: "length out1 = N" using olen by (simp add: out1_def)
    have asg: "py_slice_assign out1 (s + 1) (s + 1 + rb) src = out2"
      unfolding out2_def using s0 s1 rb o1len by (simp add: py_slice_assign_in_range)
    have run: "filter_none_row rgba_in rb out y = Inr out2"
      unfolding filter_none_row_def Let_def s_def[symmetric] d_def[symmetric] set1
      using asg by (simp add: src_def)
    have sn: "nat (s + 1) = nat s + 1" "nat (s + 1 + rb) = nat s + 1 + nat rb"
      "nat s + 1 + nat rb \<le> N"
      using s0 s1 rb by (simp_all add: nat_add_distrib)
    have len2: "length out2 = N"
      unfolding out2_def using o1len src_len sn by simp
    have same: "\<And>i. i < nat s \<Longrightarrow> out2 ! i = out ! i"
      unfolding out2_def out1_def using sn olen by (simp add: nth_append)
    have at_s: "out2 ! nat s = 0"
      unfolding out2_def out1_def using sn olen by (simp add: nth_append)
    have new: "\<And>x. 0 \<le> x \<Longrightarrow> x < rb \<Longrightarrow> out2 ! nat (s + 1 + x) = src ! nat x"
      unfolding out2_def using sn o1len src_len s0
      by (simp add: nth_append nat_add_distrib)
    have "J (y + 1) out2"
      unfolding J_def
    proof (intro conjI allI impI)
      show "length out2 = N" by (rule len2)
    next
      fix y' assume a: "0 \<le> y' \<and> y' < y + 1"
      show "out2 ! nat (y' * (1 + rb)) = 0"
      proof (cases "y' = y")
        case True
        then show ?thesis using at_s by (simp add: s_def)
      next
        case False
        with a have lt: "y' < y" by simp
        have "y' * (1 + rb) + 0 < s" unfolding s_def
          by (rule row_idx_lt) (use rb lt in \<open>auto\<close>)
        moreover have "0 \<le> y' * (1 + rb)" using a rb by simp
        ultimately have "nat (y' * (1 + rb)) < nat s" by simp
        then show ?thesis using same j a lt by (simp add: J_def)
      qed
    next
      fix y' x assume a: "0 \<le> y' \<and> y' < y + 1" and x: "0 \<le> x \<and> x < rb"
      show "out2 ! nat (y' * (1 + rb) + 1 + x) = rgba_in ! nat (y' * rb + x)"
      proof (cases "y' = y")
        case True
        then show ?thesis using new[of x] src_nth[of x] x by (simp add: s_def d_def)
      next
        case False
        with a have lt: "y' < y" by simp
        have "y' * (1 + rb) + (1 + x) < s" unfolding s_def
          by (rule row_idx_lt) (use rb lt x in \<open>auto\<close>)
        moreover have "0 \<le> y' * (1 + rb) + 1 + x" using a rb x by simp
        ultimately have "nat (y' * (1 + rb) + 1 + x) < nat s" by simp
        then show ?thesis using same j a lt x by (simp add: J_def)
      qed
    qed
    with run show "\<exists>s'. filter_none_row rgba_in rb out y = Inr s' \<and> J (y + 1) s'" by blast
  qed
  then obtain raw where l: "for_loop (py_range h) (filter_none_row rgba_in rb) (replicate N 0) = Inr raw"
    and j: "J h raw" by blast
  have nn: "\<not> h * (1 + rb) < 0" using h rb by (simp add: not_less)
  have "filter_none_rgba rgba_in w h = Inr raw"
    unfolding filter_none_rgba_def Let_def rb_def[symmetric] bytearray_def
    using l nn by (simp add: N_def)
  moreover have "int (length raw) = h * (1 + w * 4)" using j hN by (simp add: J_def rb_def)
  ultimately show ?thesis using j unfolding J_def rb_def by blast
qed

lemma unfilter_filter_none:
  assumes w: "0 \<le> w" and h: "0 \<le> h" and len: "int (length rgba_in) = w * h * 4"
    and raw: "filter_none_rgba rgba_in w h = Inr raw"
  shows "unfilter_scanlines raw w h 4 = Inr rgba_in"
proof -
  from filter_none_rgba_spec[OF w h len] raw
  have rlen: "int (length raw) = h * (1 + w * 4)"
    and zero: "\<And>y. 0 \<le> y \<Longrightarrow> y < h \<Longrightarrow> raw ! nat (y * (1 + w * 4)) = 0"
    and data: "\<And>y x. 0 \<le> y \<Longrightarrow> y < h \<Longrightarrow> 0 \<le> x \<Longrightarrow> x < w * 4 \<Longrightarrow>
                 raw ! nat (y * (1 + w * 4) + 1 + x) = rgba_in ! nat (y * (w * 4) + x)"
    by auto
  have "\<exists>out. unfilter_scanlines raw w h 4 = Inr out \<and> unf_inv raw (w * 4) 4 h h 0 out"
    by (rule unfilter_scanlines_reconstructs) (use w h rlen zero in \<open>simp_all\<close>)
  then obtain out where run: "unfilter_scanlines raw w h 4 = Inr out"
    and inv: "unf_inv raw (w * 4) 4 h h 0 out" by blast
  have olen: "length out = nat (h * (w * 4))" using inv by (simp add: unf_inv_def)
  have rec: "out ! nat (y * (w * 4) + x) = rgba_in ! nat (y * (w * 4) + x)"
    if "0 \<le> y" "y < h" "0 \<le> x" "x < w * 4" for y x
  proof -
    from inv that have "reconstructed_at raw (w * 4) 4 out y x"
      unfolding unf_inv_def by blast
    then have "uint (out ! nat (y * (w * 4) + x)) = uint (raw ! nat (y * (1 + w * 4) + 1 + x))"
      unfolding reconstructed_at_def recon_formula_def using zero[OF that(1,2)] by simp
    then have "out ! nat (y * (w * 4) + x) = raw ! nat (y * (1 + w * 4) + 1 + x)"
      by (simp add: word_uint_eq_iff)
    then show ?thesis using data[OF that] by simp
  qed
  have "out = rgba_in"
  proof (rule nth_equalityI)
    show "length out = length rgba_in" using olen len h w
      by (simp add: algebra_simps nat_eq_iff)
  next
    fix i assume "i < length out"
    then have i: "i < length rgba_in" using olen len by (simp add: algebra_simps nat_eq_iff)
    have w0: "0 < w"
    proof (rule ccontr)
      assume "\<not> 0 < w"
      with w have "w = 0" by simp
      with len i show False by simp
    qed
    from byte_index_pixel[OF len w0 i]
    obtain x y k where p: "in_image w h x y" and k: "0 \<le> k" "k \<le> 3"
      and ik: "int i = (y * w + x) * 4 + k" by blast
    have "int i = y * (w * 4) + (x * 4 + k)" using ik by (simp add: algebra_simps)
    then have "i = nat (y * (w * 4) + (x * 4 + k))" by simp
    moreover have "0 \<le> x * 4 + k" "x * 4 + k < w * 4"
      using p k by (simp_all add: in_image_def)
    ultimately show "out ! i = rgba_in ! i"
      using rec[of y "x * 4 + k"] p by (simp add: in_image_def)
  qed
  with run show ?thesis by simp
qed

lemma unpack_be32_4_bound:
  assumes "length bs = 4"
  shows "unpack_be32 bs < 2 ^ 32"
proof -
  from assms obtain a b c d where bs: "bs = [a, b, c, d]"
    by (cases bs; cases "tl bs"; cases "tl (tl bs)"; cases "tl (tl (tl bs))") auto
  have "uint a < 256" "uint b < 256" "uint c < 256" "uint d < 256"
    using uint_bounded[of a] uint_bounded[of b] uint_bounded[of c] uint_bounded[of d] by simp_all
  then show ?thesis by (simp add: bs unpack_be32_def)
qed

lemma read_png_dims:
  assumes "read_png zlib_decompress png = Inr img"
  shows "width img < 2 ^ 32 \<and> height img < 2 ^ 32"
proof -
  from assms obtain ihdr w h bit_depth color_type comp_method filt interlace
    where ih: "unpack_ihdr ihdr = Inr (w, h, bit_depth, color_type, comp_method, filt, interlace)"
      and img: "width img = w" "height img = h"
    unfolding read_png_def Let_def
    by (auto split: sum.splits prod.splits option.splits if_splits)
  from ih have "w = unpack_be32 (take 4 ihdr)" "h = unpack_be32 (take 4 (drop 4 ihdr))" "length ihdr = 13"
    by (auto simp: unpack_ihdr_def split: if_splits)
  then show ?thesis
    using unpack_be32_4_bound[of "take 4 ihdr"] unpack_be32_4_bound[of "take 4 (drop 4 ihdr)"] img
    by simp
qed

lemma tags_distinct: "IHDR \<noteq> IDAT" "IHDR \<noteq> IEND" "IDAT \<noteq> IEND" "IDAT \<noteq> IHDR"
  by (simp_all add: IHDR_def IDAT_def IEND_def)

lemma write_read_roundtrip:
  assumes enc: "header_encodable img"
    and zlib: "\<And>x. zlib_decompress (zlib_compress x) = Some x"
    and fits: "\<And>raw. filter_none_rgba (rgba img) (width img) (height img) = Inr raw \<Longrightarrow>
                 int (length (zlib_compress raw)) < 2 ^ 32"
  shows "\<exists>png. write_png_rgba zlib_compress crc32 img = Inr png \<and>
           read_png zlib_decompress png = Inr img"
proof -
  define w where "w = width img"
  define h where "h = height img"
  have wh: "0 \<le> w" "w < 2 ^ 32" "0 \<le> h" "h < 2 ^ 32"
    and len: "int (length (rgba img)) = w * h * 4"
    using enc by (simp_all add: header_encodable_def well_formed_def w_def h_def)
  obtain wb where wb: "pack_be32 w = Inr wb" using wh by (auto simp: pack_be32_def)
  obtain hb where hb: "pack_be32 h = Inr hb" using wh by (auto simp: pack_be32_def)
  define ihdr where "ihdr = wb @ hb @ [8, 6, 0, 0, 0 :: byte]"
  have wbl: "length wb = 4" "unpack_be32 wb = w" and hbl: "length hb = 4" "unpack_be32 hb = h"
    using unpack_pack_be32[OF wb] unpack_pack_be32[OF hb] by simp_all
  have pih: "pack_ihdr w h = Inr ihdr" by (simp add: pack_ihdr_def wb hb ihdr_def)
  have uih: "unpack_ihdr ihdr = Inr (w, h, 8, 6, 0, 0, 0)"
    using wbl hbl by (simp add: unpack_ihdr_def ihdr_def nth_append)
  from filter_none_rgba_spec[OF wh(1,3) len]
  obtain raw where raw: "filter_none_rgba (rgba img) w h = Inr raw" by blast
  have unf: "unfilter_scanlines raw w h 4 = Inr (rgba img)"
    by (rule unfilter_filter_none[OF wh(1,3) len raw])
  define comp where "comp = zlib_compress raw"
  have cl: "int (length comp) < 2 ^ 32"
    unfolding comp_def by (rule fits) (simp add: raw w_def[symmetric] h_def[symmetric])
  have il: "length ihdr = 13" using wbl hbl by (simp add: ihdr_def)
  from chunk_shape[of ihdr crc32 IHDR] il
  obtain l1 c1 where k1: "chunk crc32 IHDR ihdr = Inr (l1 @ IHDR @ ihdr @ c1)"
    and s1: "length l1 = 4" "length c1 = 4" "unpack_be32 l1 = int (length ihdr)" by auto
  from chunk_shape[OF cl, of crc32 IDAT]
  obtain l2 c2 where k2: "chunk crc32 IDAT comp = Inr (l2 @ IDAT @ comp @ c2)"
    and s2: "length l2 = 4" "length c2 = 4" "unpack_be32 l2 = int (length comp)" by auto
  from chunk_shape[of "[]" crc32 IEND]
  obtain l3 c3 where k3: "chunk crc32 IEND [] = Inr (l3 @ IEND @ [] @ c3)"
    and s3: "length l3 = 4" "length c3 = 4" "unpack_be32 l3 = int (length ([] :: byte list))" by auto
  define ch1 where "ch1 = l1 @ IHDR @ ihdr @ c1"
  define ch2 where "ch2 = l2 @ IDAT @ comp @ c2"
  define ch3 where "ch3 = l3 @ IEND @ [] @ c3"
  define png where "png = PNG_SIGNATURE @ ch1 @ ch2 @ ch3"
  have wr: "write_png_rgba zlib_compress crc32 img = Inr png"
    unfolding write_png_rgba_def Let_def w_def[symmetric] h_def[symmetric] pih raw sum.case
      comp_def[symmetric] k1 k2 k3 png_def ch1_def ch2_def ch3_def
    by simp
  have tl: "length IHDR = 4" "length IDAT = 4" "length IEND = 4"
    by (simp_all add: IHDR_def IDAT_def IEND_def)
  have r1: "read_chunks_from png (int (length PNG_SIGNATURE)) =
              (IHDR, ihdr) # read_chunks_from png (int (length (PNG_SIGNATURE @ ch1)))"
    using read_chunk_at[of png PNG_SIGNATURE l1 IHDR ihdr c1 "ch2 @ ch3"] s1 tl tags_distinct
    by (simp add: png_def ch1_def)
  have r2: "read_chunks_from png (int (length (PNG_SIGNATURE @ ch1))) =
              (IDAT, comp) # read_chunks_from png (int (length ((PNG_SIGNATURE @ ch1) @ ch2)))"
    using read_chunk_at[of png "PNG_SIGNATURE @ ch1" l2 IDAT comp c2 ch3] s2 tl tags_distinct
    by (simp add: png_def ch2_def)
  have r3: "read_chunks_from png (int (length ((PNG_SIGNATURE @ ch1) @ ch2))) = [(IEND, [])]"
    using read_chunk_at[of png "(PNG_SIGNATURE @ ch1) @ ch2" l3 IEND "[]" c3 "[]"] s3 tl
    by (simp add: png_def ch3_def)
  have sig: "take (length PNG_SIGNATURE) png = PNG_SIGNATURE" by (simp add: png_def)
  have rc: "read_chunks png = Inr [(IHDR, ihdr), (IDAT, comp), (IEND, [])]"
    unfolding read_chunks_def using sig r1 r2 r3 by simp
  have cc: "collect_chunks [(IHDR, ihdr), (IDAT, comp), (IEND, [])] None [] = (Some ihdr, [comp])"
    using tags_distinct by simp
  have zd: "zlib_decompress (concat [comp]) = Some raw" by (simp add: comp_def zlib)
  have "read_png zlib_decompress png = Inr \<lparr>width = w, height = h, rgba = rgba img\<rparr>"
    unfolding read_png_def rc cc Let_def sum.case prod.case option.case uih zd
    using unf by simp
  then have "read_png zlib_decompress png = Inr img" by (simp add: w_def h_def)
  with wr show ?thesis by blast
qed

text \<open>
  The length of a chunk's data is packed into 32 bits: \<open>struct.pack(">I", len(data))\<close>
  raises for \<open>2 ^ 32\<close> bytes and more, and \<open>write_png_rgba\<close>, which puts the whole
  compressed stream into one \<open>IDAT\<close> chunk, raises with it.
\<close>

lemma chunk_too_long:
  assumes "2 ^ 32 \<le> int (length data)"
  shows "chunk crc32 ctype data = Inl StructError"
  using assms by (simp add: chunk_def pack_be32_def Let_def)

lemma write_png_rgba_too_long:
  assumes enc: "header_encodable img"
    and raw: "filter_none_rgba (rgba img) (width img) (height img) = Inr raw"
    and long: "2 ^ 32 \<le> int (length (zlib_compress raw))"
  shows "write_png_rgba zlib_compress crc32 img = Inl StructError"
proof -
  have wh: "0 \<le> width img" "width img < 2 ^ 32" "0 \<le> height img" "height img < 2 ^ 32"
    using enc by (simp_all add: header_encodable_def well_formed_def)
  obtain wb where wb: "pack_be32 (width img) = Inr wb" using wh by (auto simp: pack_be32_def)
  obtain hb where hb: "pack_be32 (height img) = Inr hb" using wh by (auto simp: pack_be32_def)
  define ihdr where "ihdr = wb @ hb @ [8, 6, 0, 0, 0 :: byte]"
  have pih: "pack_ihdr (width img) (height img) = Inr ihdr"
    by (simp add: pack_ihdr_def wb hb ihdr_def)
  have "length ihdr = 13"
    using unpack_pack_be32[OF wb] unpack_pack_be32[OF hb] by (simp add: ihdr_def)
  with chunk_shape[of ihdr crc32 IHDR]
  obtain c1 where k1: "chunk crc32 IHDR ihdr = Inr c1" by auto
  have k2: "chunk crc32 IDAT (zlib_compress raw) = Inl StructError"
    by (rule chunk_too_long[OF long])
  show ?thesis
    unfolding write_png_rgba_def Let_def pih raw sum.case k1 k2 by simp
qed

text \<open>
  \<open>read_png\<close> joins the payloads of all \<open>IDAT\<close> chunks, so it returns images whose
  scanlines are longer than one chunk can hold: the row of \<open>2 ^ 30\<close> pixels is one.
\<close>

lemma filter_none_rgba_zeros:
  assumes w: "0 \<le> w"
  shows "filter_none_rgba (replicate (nat (w * 4)) 0) w 1 = Inr (replicate (nat (1 + w * 4)) 0)"
proof -
  define rgba_in :: "byte list" where "rgba_in = replicate (nat (w * 4)) 0"
  have len: "int (length rgba_in) = w * 1 * 4" using w by (simp add: rgba_in_def)
  from filter_none_rgba_spec[OF w _ len]
  obtain raw where run: "filter_none_rgba rgba_in w 1 = Inr raw"
    and rlen: "int (length raw) = 1 * (1 + w * 4)"
    and rows: "\<forall>y. 0 \<le> y \<and> y < 1 \<longrightarrow>
              raw ! nat (y * (1 + w * 4)) = 0 \<and>
              (\<forall>x. 0 \<le> x \<and> x < w * 4 \<longrightarrow>
                 raw ! nat (y * (1 + w * 4) + 1 + x) = rgba_in ! nat (y * (w * 4) + x))"
    by auto
  from rows[rule_format, of 0]
  have z: "raw ! 0 = 0"
    and d: "\<And>x. 0 \<le> x \<Longrightarrow> x < w * 4 \<Longrightarrow> raw ! nat (1 + x) = rgba_in ! nat x"
    by simp_all
  have "raw = replicate (nat (1 + w * 4)) 0"
  proof (rule nth_equalityI)
    show "length raw = length (replicate (nat (1 + w * 4)) (0 :: byte))"
      using rlen w by simp
  next
    fix i assume i: "i < length raw"
    then have ib: "int i < 1 + w * 4" using rlen by simp
    have "raw ! i = 0"
    proof (cases i)
      case 0
      then show ?thesis using z by simp
    next
      case (Suc j)
      then have j: "int j < w * 4" using ib by simp
      have "raw ! nat (1 + int j) = rgba_in ! nat (int j)"
        by (rule d) (use j in \<open>simp_all\<close>)
      moreover have "nat (1 + int j) = i" using Suc by simp
      moreover have "rgba_in ! j = 0" using j by (simp add: rgba_in_def)
      ultimately show ?thesis by simp
    qed
    then show "raw ! i = replicate (nat (1 + w * 4)) 0 ! i"
      using ib by simp
  qed
  with run show ?thesis by (simp add: rgba_in_def)
qed

lemma wide_row_scanlines:
  "filter_none_rgba (rgba wide_row) (width wide_row) (height wide_row) = Inr (replicate (2 ^ 32 + 1) 0)"
proof -
  have n: "nat ((2::int) ^ 30 * 4) = 2 ^ 32" "nat (1 + (2::int) ^ 30 * 4) = 2 ^ 32 + 1"
    by simp_all
  show ?thesis
    using filter_none_rgba_zeros[of "2 ^ 30"] unfolding n by (simp add: wide_row_def)
qed

lemma wide_row_header_encodable: "header_encodable wide_row"
  by (simp add: header_encodable_def well_formed_def wide_row_def)

lemma read_png_wide_row: "read_png Some png_wide_row = Inr wide_row"
proof -
  define ihdr :: "byte list" where "ihdr = [64, 0, 0, 0,  0, 0, 0, 1,  8, 6, 0, 0, 0]"
  define d1 :: "byte list" where "d1 = replicate (2 ^ 31) 0"
  define d2 :: "byte list" where "d2 = replicate (2 ^ 31 + 1) 0"
  define z4 :: "byte list" where "z4 = [0, 0, 0, 0]"
  define ch1 where "ch1 = [0, 0, 0, 13] @ IHDR @ ihdr @ z4"
  define ch2 where "ch2 = [128, 0, 0, 0] @ IDAT @ d1 @ z4"
  define ch3 where "ch3 = [128, 0, 0, 1] @ IDAT @ d2 @ z4"
  define ch4 where "ch4 = [0, 0, 0, 0] @ IEND @ [] @ z4"
  define png where "png = PNG_SIGNATURE @ ch1 @ ch2 @ ch3 @ ch4"
  have png: "png_wide_row = png"
    by (simp add: png_wide_row_def png_def ch1_def ch2_def ch3_def ch4_def ihdr_def d1_def d2_def z4_def)
  have tl: "length IHDR = 4" "length IDAT = 4" "length IEND = 4" "length z4 = 4"
    by (simp_all add: IHDR_def IDAT_def IEND_def z4_def)
  have u1: "unpack_be32 [0, 0, 0, 13] = int (length ihdr)"
    by (simp add: unpack_be32_def ihdr_def)
  have u2: "unpack_be32 [128, 0, 0, 0] = int (length d1)"
    by (simp add: unpack_be32_def d1_def)
  have u3: "unpack_be32 [128, 0, 0, 1] = int (length d2)"
    by (simp add: unpack_be32_def d2_def)
  have u4: "unpack_be32 [0, 0, 0, 0] = int (length ([] :: byte list))"
    by (simp add: unpack_be32_def)
  have r1: "read_chunks_from png (int (length PNG_SIGNATURE)) =
              (IHDR, ihdr) # read_chunks_from png (int (length (PNG_SIGNATURE @ ch1)))"
    using read_chunk_at[of png PNG_SIGNATURE "[0, 0, 0, 13]" IHDR ihdr z4 "ch2 @ ch3 @ ch4"] u1 tl tags_distinct
    by (simp add: png_def ch1_def)
  have r2: "read_chunks_from png (int (length (PNG_SIGNATURE @ ch1))) =
              (IDAT, d1) # read_chunks_from png (int (length ((PNG_SIGNATURE @ ch1) @ ch2)))"
    using read_chunk_at[of png "PNG_SIGNATURE @ ch1" "[128, 0, 0, 0]" IDAT d1 z4 "ch3 @ ch4"] u2 tl tags_distinct
    by (simp add: png_def ch2_def)
  have r3: "read_chunks_from png (int (length ((PNG_SIGNATURE @ ch1) @ ch2))) =
              (IDAT, d2) # read_chunks_from png (int (length (((PNG_SIGNATURE @ ch1) @ ch2) @ ch3)))"
    using read_chunk_at[of png "(PNG_SIGNATURE @ ch1) @ ch2" "[128, 0, 0, 1]" IDAT d2 z4 ch4] u3 tl tags_distinct
    by (simp add: png_def ch3_def)
  have r4: "read_chunks_from png (int (length (((PNG_SIGNATURE @ ch1) @ ch2) @ ch3))) = [(IEND, [])]"
    using read_chunk_at[of png "((PNG_SIGNATURE @ ch1) @ ch2) @ ch3" "[0, 0, 0, 0]" IEND "[]" z4 "[]"] u4 tl
    by (simp add: png_def ch4_def)
  have sig: "take (length PNG_SIGNATURE) png = PNG_SIGNATURE" by (simp add: png_def)
  have rc: "read_chunks png = Inr [(IHDR, ihdr), (IDAT, d1), (IDAT, d2), (IEND, [])]"
    unfolding read_chunks_def using sig r1 r2 r3 r4 by simp
  have cc: "collect_chunks [(IHDR, ihdr), (IDAT, d1), (IDAT, d2), (IEND, [])] None [] = (Some ihdr, [d1, d2])"
    using tags_distinct by simp
  have uih: "unpack_ihdr ihdr = Inr (2 ^ 30, 1, 8, 6, 0, 0, 0)"
    by (simp add: unpack_ihdr_def ihdr_def unpack_be32_def)
  have cat: "concat [d1, d2] = replicate (2 ^ 32 + 1) 0"
    by (simp add: d1_def d2_def replicate_add[symmetric])
  have unf: "unfilter_scanlines (replicate (2 ^ 32 + 1) 0) (2 ^ 30) 1 4 = Inr (replicate (2 ^ 32) 0)"
    using unfilter_filter_none[of "2 ^ 30" 1 "replicate (2 ^ 32) 0" "replicate (2 ^ 32 + 1) 0"]
      wide_row_scanlines
    by (simp add: wide_row_def)
  have "read_png Some png = Inr \<lparr>width = 2 ^ 30, height = 1, rgba = replicate (2 ^ 32) 0\<rparr>"
    unfolding read_png_def rc cc Let_def sum.case prod.case option.case uih cat
    using unf by simp
  then show ?thesis by (simp add: png wide_row_def)
qed

section \<open>Claims about encoding and decoding\<close>

text \<open>
  Claim C1, as amended. Let \<open>zlib.decompress\<close> invert \<open>zlib.compress\<close>, and let the
  compressed scanlines of the image be shorter than \<open>2 ^ 32\<close> bytes, the most the length
  field of the one \<open>IDAT\<close> chunk can hold. Then every well-formed image with dimensions
  below \<open>2 ^ 32\<close> is written by \<open>write_png_rgba\<close> to bytes from which \<open>read_png\<close>
  returns the same image: the same width, height and buffer. Every image that \<open>read_png\<close>
  returns is well formed with dimensions below \<open>2 ^ 32\<close>, and
  \<open>background_to_alpha_floodfill\<close> returns such an image when it is given one.
\<close>

theorem write_then_read_is_identity:
  "(header_encodable img \<and> (\<forall>x. zlib_decompress (zlib_compress x) = Some x) \<and>
      (\<forall>raw. filter_none_rgba (rgba img) (width img) (height img) = Inr raw \<longrightarrow>
         int (length (zlib_compress raw)) < 2 ^ 32) \<longrightarrow>
      (\<exists>png. write_png_rgba zlib_compress crc32 img = Inr png \<and>
         read_png zlib_decompress png = Inr img)) \<and>
   (read_png zlib_decompress png0 = Inr decoded \<longrightarrow> header_encodable decoded) \<and>
   (header_encodable img \<and> background_to_alpha_floodfill img tolerance max_seed_colors = Inr r \<longrightarrow>
      header_encodable (returned_image img r))"
proof (intro conjI impI)
  assume a: "header_encodable img \<and> (\<forall>x. zlib_decompress (zlib_compress x) = Some x) \<and>
      (\<forall>raw. filter_none_rgba (rgba img) (width img) (height img) = Inr raw \<longrightarrow>
         int (length (zlib_compress raw)) < 2 ^ 32)"
  show "\<exists>png. write_png_rgba zlib_compress crc32 img = Inr png \<and>
         read_png zlib_decompress png = Inr img"
    by (rule write_read_roundtrip) (use a in \<open>simp_all\<close>)
next
  assume "read_png zlib_decompress png0 = Inr decoded"
  then show "header_encodable decoded"
    using read_png_well_formed read_png_dims unfolding header_encodable_def by blast
next
  assume a: "header_encodable img \<and> background_to_alpha_floodfill img tolerance max_seed_colors = Inr r"
  then show "header_encodable (returned_image img r)"
    using floodfill_shape[of img tolerance max_seed_colors r]
    by (simp add: header_encodable_def well_formed_def)
qed

theorem write_then_read_is_identity_witness:
  "header_encodable red_pixel \<and>
   (\<exists>png. write_png_rgba (\<lambda>x. x) (\<lambda>x. 0) red_pixel = Inr png \<and> read_png Some png = Inr red_pixel) \<and>
   read_png Some png_red_pixel = Inr red_pixel \<and>
   header_encodable ring5 \<and> header_encodable ring5_cleared"
proof -
  have e: "header_encodable red_pixel" by (simp add: header_encodable_def well_formed_def red_pixel_def)
  have f: "filter_none_rgba (rgba red_pixel) (width red_pixel) (height red_pixel) = Inr [0, 255, 0, 0, 255]"
    unfolding red_pixel_def by code_simp
  have d: "read_png Some png_red_pixel = Inr red_pixel"
    unfolding png_red_pixel_def red_pixel_def by code_simp
  have e5: "header_encodable ring5" by (simp add: header_encodable_def well_formed_def ring5_def)
  note t = write_then_read_is_identity[of red_pixel Some "\<lambda>x. x" "\<lambda>x. 0" png_red_pixel red_pixel 28 2 Same_Object]
  note t5 = write_then_read_is_identity[of ring5 Some "\<lambda>x. x" "\<lambda>x. 0" png_red_pixel red_pixel 28 2 "New_Object ring5_cleared"]
  have "\<exists>png. write_png_rgba (\<lambda>x. x) (\<lambda>x. 0) red_pixel = Inr png \<and> read_png Some png = Inr red_pixel"
    using t e f by simp
  moreover have "header_encodable (returned_image ring5 (New_Object ring5_cleared))"
    using t5 e5 ring5_run by blast
  ultimately show ?thesis using e d e5 by (simp add: returned_image_def)
qed

text \<open>
  Claim C1 as stated fails: \<open>read_png\<close> returns the row of \<open>2 ^ 30\<close> pixels from a file
  with two \<open>IDAT\<close> chunks, and \<open>write_png_rgba\<close> raises \<open>struct.error\<close> on that image
  when the compressor does not shorten its \<open>2 ^ 32 + 1\<close> bytes of scanline: they do not
  fit the length field of one chunk.
\<close>

theorem wide_row_is_read_but_not_written:
  "read_png Some png_wide_row = Inr wide_row \<and>
   write_png_rgba (\<lambda>x. x) (\<lambda>x. 0) wide_row = Inl StructError"
proof -
  have "write_png_rgba (\<lambda>x. x) (\<lambda>x. 0) wide_row = Inl StructError"
    by (rule write_png_rgba_too_long[OF wide_row_header_encodable wide_row_scanlines]) simp
  with read_png_wide_row show ?thesis by simp
qed

text \<open>
  Claim C4 fails on the code for rows without bytes: the check of the filter type sits in
  the loop over the bytes of a row, so with width 0 a filter byte of 5 raises nothing, and
  \<open>read_png\<close> returns an image. With width 1 the same byte is refused.
\<close>

theorem zero_width_filter_byte_unchecked:
  "unfilter_scanlines [5] 0 1 4 = Inr [] \<and>
   unfilter_scanlines [5, 0, 0, 0, 0] 1 1 4 = Inl (UnsupportedFilter 5)"
  by code_simp

text \<open>
  The same through \<open>read_png\<close>, for a decompressor that returns the \<open>IDAT\<close> payload as
  it is.
\<close>

lemma read_png_zero_width:
  "read_png Some png_zero_width = Inr \<lparr>width = 0, height = 1, rgba = []\<rparr>"
  unfolding png_zero_width_def by code_simp

end
